theory Spec2Isabelle
  imports Complex_Main "HOL-Library.Multiset" "HOL-Library.Sublist" "HOL-Library.AList"
    "HOL-Library.Log_Nat"
begin

section \<open>JavaScript values as the product API of server.js sees them\<close>

text \<open>
  The server keeps its products in a JSON file that every handler re-reads
  (\<^verbatim>\<open>await db.read()\<close>) and, after a change, rewrites (\<^verbatim>\<open>await db.write()\<close>).
  Stored values and request bodies are therefore JSON values. A JSON number
  \<open>JNum r\<close> is the number written \<open>r\<close>; JavaScript reads it as the IEEE double
  nearest to \<open>r\<close>, and every use of a number below goes through that rounding.
  The sign of a zero is not kept: nothing in the handlers tells \<^verbatim>\<open>-0\<close> from \<^verbatim>\<open>0\<close>.
  A string is the sequence of its UTF-8 bytes.
\<close>

datatype json =
    JNull
  | JBool bool
  | JNum rat
  | JStr string
  | JArr "json list"
  | JObj "(string \<times> json) list"

text \<open>
  A product is a plain object; reading a property that is not there gives
  \<^verbatim>\<open>undefined\<close>, which is \<open>None\<close> here.
\<close>

type_synonym product = "(string \<times> json) list"

definition field :: "product \<Rightarrow> string \<Rightarrow> json option" where
  "field p k = map_of p k"

text \<open>
  The results of \<^verbatim>\<open>Number(...)\<close>, \<^verbatim>\<open>Math.max\<close>, \<^verbatim>\<open>+\<close> and \<^verbatim>\<open>-\<close>: a finite double
  (given by its exact value), one of the two infinities, or NaN.
\<close>

datatype jsnum = NaN | PInf | NInf | Fin rat

subsection \<open>Rounding to a double\<close>

definition pow2 :: "int \<Rightarrow> rat" where
  "pow2 e = (if 0 \<le> e then 2 ^ nat e else 1 / 2 ^ nat (- e))"

definition pow10 :: "int \<Rightarrow> rat" where
  "pow10 e = (if 0 \<le> e then 10 ^ nat e else 1 / 10 ^ nat (- e))"

text \<open>The binary exponent of a positive rational \<open>a\<close>: \<open>2^e \<le> a < 2^(e+1)\<close>.\<close>

definition floor_log2 :: "rat \<Rightarrow> int" where
  "floor_log2 a = (let (p, q) = quotient_of a; d = bitlen p - bitlen q
                   in if pow2 d \<le> a then d else d - 1)"

definition round_half_even :: "rat \<Rightarrow> int" where
  "round_half_even t =
     (let f = \<lfloor>t\<rfloor>; r = t - of_int f
      in if r < 1 / 2 then f else if 1 / 2 < r then f + 1 else if even f then f else f + 1)"

text \<open>
  The IEEE 754 binary64 value nearest to \<open>r\<close>, ties to the even significand:
  53 significant bits, exponents from -1022 (below it the spacing stays
  \<open>2^-1074\<close>) to 1023, and an infinity when the rounded value does not fit.
\<close>

definition round_double :: "rat \<Rightarrow> jsnum" where
  "round_double r =
     (if r = 0 then Fin 0
      else let a = \<bar>r\<bar>;
               e = max (floor_log2 a) (- 1022);
               u = pow2 (e - 52);
               n = round_half_even (a / u)
           in if 1023 < e \<or> (e = 1023 \<and> n = 2 ^ 53)
              then (if 0 < r then PInf else NInf)
              else Fin (sgn r * of_int n * u))"

subsection \<open>Truthiness and \<^verbatim>\<open>||\<close>\<close>

fun num_truthy :: "jsnum \<Rightarrow> bool" where
  "num_truthy NaN = False"
| "num_truthy (Fin r) = (r \<noteq> 0)"
| "num_truthy PInf = True"
| "num_truthy NInf = True"

fun truthy :: "json option \<Rightarrow> bool" where
  "truthy None = False"
| "truthy (Some JNull) = False"
| "truthy (Some (JBool b)) = b"
| "truthy (Some (JNum r)) = num_truthy (round_double r)"
| "truthy (Some (JStr s)) = (s \<noteq> [])"
| "truthy (Some (JArr xs)) = True"
| "truthy (Some (JObj kvs)) = True"

definition num_or :: "jsnum \<Rightarrow> jsnum \<Rightarrow> jsnum" where
  "num_or a b = (if num_truthy a then a else b)"

subsection \<open>Arithmetic and comparison on numbers\<close>

fun num_neg :: "jsnum \<Rightarrow> jsnum" where
  "num_neg NaN = NaN"
| "num_neg PInf = NInf"
| "num_neg NInf = PInf"
| "num_neg (Fin r) = Fin (- r)"

text \<open>\<^verbatim>\<open>a + b\<close> on numbers: the exact sum of two finite doubles, rounded.\<close>

fun num_add :: "jsnum \<Rightarrow> jsnum \<Rightarrow> jsnum" where
  "num_add NaN b = NaN"
| "num_add a NaN = NaN"
| "num_add PInf NInf = NaN"
| "num_add NInf PInf = NaN"
| "num_add PInf b = PInf"
| "num_add NInf b = NInf"
| "num_add (Fin x) PInf = PInf"
| "num_add (Fin x) NInf = NInf"
| "num_add (Fin x) (Fin y) = round_double (x + y)"

definition num_sub :: "jsnum \<Rightarrow> jsnum \<Rightarrow> jsnum" where
  "num_sub a b = num_add a (num_neg b)"

text \<open>\<^verbatim>\<open>a < b\<close> on numbers: false as soon as one side is NaN.\<close>

fun num_lt :: "jsnum \<Rightarrow> jsnum \<Rightarrow> bool" where
  "num_lt NaN b = False"
| "num_lt a NaN = False"
| "num_lt PInf b = False"
| "num_lt NInf NInf = False"
| "num_lt NInf b = True"
| "num_lt (Fin x) PInf = True"
| "num_lt (Fin x) NInf = False"
| "num_lt (Fin x) (Fin y) = (x < y)"

text \<open>\<^verbatim>\<open>a === b\<close> on numbers: NaN is equal to nothing, itself included.\<close>

definition num_eq :: "jsnum \<Rightarrow> jsnum \<Rightarrow> bool" where
  "num_eq a b = (a \<noteq> NaN \<and> a = b)"

definition num_le :: "jsnum \<Rightarrow> jsnum \<Rightarrow> bool" where
  "num_le a b = (num_lt a b \<or> num_eq a b)"

text \<open>\<^verbatim>\<open>Math.max(a, b)\<close>: NaN if one argument is NaN, else the larger.\<close>

definition Math_max :: "jsnum \<Rightarrow> jsnum \<Rightarrow> jsnum" where
  "Math_max a b = (if a = NaN \<or> b = NaN then NaN else if num_lt a b then b else a)"

subsection \<open>\<^verbatim>\<open>Number(...)\<close>\<close>

text \<open>
  On a string, \<^verbatim>\<open>Number\<close> trims white space and line terminators and reads a
  numeric literal: the empty string is 0; an optionally signed decimal literal
  with optional fraction and exponent, or \<^verbatim>\<open>Infinity\<close>; or an unsigned \<^verbatim>\<open>0x\<close>,
  \<^verbatim>\<open>0o\<close>, \<^verbatim>\<open>0b\<close> literal. The value read is rounded to a double. Anything
  else is NaN.
\<close>

text \<open>
  The number of bytes of the white space character or line terminator at the
  head of a byte sequence, 0 when there is none: TAB, LF, VT, FF, CR, SP, and in
  UTF-8 U+00A0, U+1680, U+2000 to U+200A, U+2028, U+2029, U+202F, U+205F, U+3000
  and U+FEFF.
\<close>

definition ws_head :: "nat list \<Rightarrow> nat" where
  "ws_head bs = (case bs of
       [] \<Rightarrow> 0
     | a # r \<Rightarrow>
         if a \<in> {9, 10, 11, 12, 13, 32} then 1
         else if a = 194 \<and> take 1 r = [160] then 2
         else if a = 225 \<and> take 2 r = [154, 128] then 3
         else if a = 226 \<and> (case r of
                   b # c # _ \<Rightarrow>
                     (b = 128 \<and> ((128 \<le> c \<and> c \<le> 138) \<or> c = 168 \<or> c = 169 \<or> c = 175))
                     \<or> (b = 129 \<and> c = 159)
                 | _ \<Rightarrow> False) then 3
         else if a = 227 \<and> take 2 r = [128, 128] then 3
         else if a = 239 \<and> take 2 r = [187, 191] then 3
         else 0)"

text \<open>The same at the end of a byte sequence, given reversed.\<close>

definition ws_last :: "nat list \<Rightarrow> nat" where
  "ws_last rs = (case rs of
       [] \<Rightarrow> 0
     | c # r \<Rightarrow>
         if c \<in> {9, 10, 11, 12, 13, 32} then 1
         else if c = 160 \<and> take 1 r = [194] then 2
         else if (case r of b # a # _ \<Rightarrow> ws_head [a, b, c] = 3 | _ \<Rightarrow> False) then 3
         else 0)"

fun drop_ws :: "(nat list \<Rightarrow> nat) \<Rightarrow> nat \<Rightarrow> nat list \<Rightarrow> nat list" where
  "drop_ws w 0 bs = bs"
| "drop_ws w (Suc n) bs = (if w bs = 0 then bs else drop_ws w n (drop (w bs) bs))"

definition strip :: "string \<Rightarrow> string" where
  "strip s =
     (let bs = drop_ws ws_head (length s) (map of_char s);
          rs = drop_ws ws_last (length s) (rev bs)
      in map char_of (rev rs))"

definition digit_of :: "char \<Rightarrow> nat option" where
  "digit_of c = (let n = (of_char c :: nat) in
     if 48 \<le> n \<and> n \<le> 57 then Some (n - 48)
     else if 97 \<le> n \<and> n \<le> 102 then Some (n - 87)
     else if 65 \<le> n \<and> n \<le> 70 then Some (n - 55)
     else None)"

definition is_digit_in :: "nat \<Rightarrow> char \<Rightarrow> bool" where
  "is_digit_in b c = (case digit_of c of Some d \<Rightarrow> d < b | None \<Rightarrow> False)"

definition digits_val :: "nat \<Rightarrow> string \<Rightarrow> nat" where
  "digits_val b s = foldl (\<lambda>a c. a * b + (case digit_of c of Some d \<Rightarrow> d | None \<Rightarrow> 0)) 0 s"

definition all_digits :: "nat \<Rightarrow> string \<Rightarrow> bool" where
  "all_digits b s = (s \<noteq> [] \<and> list_all (is_digit_in b) s)"

definition exponent_part :: "string \<Rightarrow> int option" where
  "exponent_part s = (case s of
       [] \<Rightarrow> Some 0
     | c # r \<Rightarrow>
         if c = CHR ''e'' \<or> c = CHR ''E'' then
           (case r of
              [] \<Rightarrow> None
            | d # r' \<Rightarrow>
                if d = CHR ''-'' then
                  (if all_digits 10 r' then Some (- int (digits_val 10 r')) else None)
                else if d = CHR ''+'' then
                  (if all_digits 10 r' then Some (int (digits_val 10 r')) else None)
                else (if all_digits 10 r then Some (int (digits_val 10 r)) else None))
         else None)"

definition unsigned_decimal :: "string \<Rightarrow> jsnum" where
  "unsigned_decimal s =
     (if s = ''Infinity'' then PInf
      else
        let ip = takeWhile (is_digit_in 10) s;
            r1 = dropWhile (is_digit_in 10) s;
            dot = (case r1 of [] \<Rightarrow> False | c # _ \<Rightarrow> c = CHR ''.'');
            fp = (if dot then takeWhile (is_digit_in 10) (tl r1) else []);
            r2 = (if dot then dropWhile (is_digit_in 10) (tl r1) else r1)
        in if ip = [] \<and> fp = [] then NaN
           else (case exponent_part r2 of
                   None \<Rightarrow> NaN
                 | Some e \<Rightarrow>
                     round_double ((of_nat (digits_val 10 ip)
                           + of_nat (digits_val 10 fp) / 10 ^ length fp) * pow10 e)))"

definition signed_decimal :: "string \<Rightarrow> jsnum" where
  "signed_decimal s = (case s of
       [] \<Rightarrow> NaN
     | c # r \<Rightarrow>
         if c = CHR ''-'' then num_neg (unsigned_decimal r)
         else if c = CHR ''+'' then unsigned_decimal r
         else unsigned_decimal s)"

definition radix_of :: "char \<Rightarrow> nat option" where
  "radix_of c =
     (if c = CHR ''x'' \<or> c = CHR ''X'' then Some 16
      else if c = CHR ''o'' \<or> c = CHR ''O'' then Some 8
      else if c = CHR ''b'' \<or> c = CHR ''B'' then Some 2
      else None)"

definition StringToNumber :: "string \<Rightarrow> jsnum" where
  "StringToNumber s =
     (let t = strip s in
      case t of
        [] \<Rightarrow> Fin 0
      | [c] \<Rightarrow> signed_decimal t
      | c0 # c1 # ds \<Rightarrow>
          (case (if c0 = CHR ''0'' then radix_of c1 else None) of
             Some b \<Rightarrow> if all_digits b ds then round_double (of_nat (digits_val b ds)) else NaN
           | None \<Rightarrow> signed_decimal t))"

text \<open>
  On the other values: \<^verbatim>\<open>null\<close> is 0, a boolean is 0 or 1, a number is the
  double it is read as, an object is NaN. An array is first joined into a
  string (\<^verbatim>\<open>null\<close> elements as the empty string): the empty array is 0, two or
  more elements give a string with a comma, which is NaN, and a one-element
  array is what its element prints as, read back as a number.
\<close>

fun to_number :: "json \<Rightarrow> jsnum" where
  "to_number JNull = Fin 0"
| "to_number (JBool b) = Fin (if b then 1 else 0)"
| "to_number (JNum r) = round_double r"
| "to_number (JStr s) = StringToNumber s"
| "to_number (JObj kvs) = NaN"
| "to_number (JArr []) = Fin 0"
| "to_number (JArr [JBool b]) = NaN"
| "to_number (JArr [x]) = to_number x"
| "to_number (JArr (x # y # zs)) = NaN"

definition Number :: "json option \<Rightarrow> jsnum" where
  "Number v = (case v of None \<Rightarrow> NaN | Some j \<Rightarrow> to_number j)"

section \<open>Helpers\<close>

text \<open>
  \<^verbatim>\<open>function nextId(items) {
    return (items.reduce((m, x) => Math.max(m, Number(x.id) || 0), 0) || 0) + 1;
  }\<close>
\<close>

definition nextId :: "product list \<Rightarrow> jsnum" where
  "nextId items =
     num_add
       (num_or (fold (\<lambda>x m. Math_max m (num_or (Number (field x ''id'')) (Fin 0))) items (Fin 0))
               (Fin 0))
       (Fin 1)"

text \<open>
  The specification's reading of \<^verbatim>\<open>nextId\<close>: the numeric value of a product's
  id, with a non-numeric or missing id counted as 0.
\<close>

definition numeric_id_or_0 :: "product \<Rightarrow> jsnum" where
  "numeric_id_or_0 p = (case Number (field p ''id'') of NaN \<Rightarrow> Fin 0 | n \<Rightarrow> n)"

text \<open>The \<^verbatim>\<open>reduce\<close> inside \<^verbatim>\<open>nextId\<close>, from a starting value \<open>m0\<close>.\<close>

definition max_id :: "product list \<Rightarrow> jsnum \<Rightarrow> jsnum" where
  "max_id items m0 = fold (\<lambda>x m. Math_max m (num_or (Number (field x ''id'')) (Fin 0))) items m0"

section \<open>Requests and responses\<close>

text \<open>
  A response is a status code and an optional JSON body (\<^verbatim>\<open>res.status(s).json(b)\<close>,
  \<^verbatim>\<open>res.status(204).end()\<close>). A handler gives back the response together with
  the contents of the JSON file after it: the file it read when it did not
  call \<^verbatim>\<open>db.write()\<close>.
\<close>

datatype response = Response (status: nat) (body: "json option")

datatype js_error = TypeError

definition error_body :: "string \<Rightarrow> json" where
  "error_body msg = JObj [(''error'', JStr msg)]"

text \<open>
  What \<^verbatim>\<open>JSON.stringify\<close> writes for a number, in the file and in a response:
  NaN and the infinities as \<^verbatim>\<open>null\<close>, and a finite double \<open>d\<close> as the decimal
  with the fewest significant digits that reads back as \<open>d\<close> (the nearest to
  \<open>d\<close> among those).
\<close>

fun dec_up :: "nat \<Rightarrow> rat \<Rightarrow> int \<Rightarrow> int" where
  "dec_up 0 a n = n"
| "dec_up (Suc fuel) a n = (if a < pow10 n then n else dec_up fuel a (n + 1))"

fun dec_down :: "nat \<Rightarrow> rat \<Rightarrow> int \<Rightarrow> int" where
  "dec_down 0 a n = n"
| "dec_down (Suc fuel) a n = (if pow10 (n - 1) \<le> a then n else dec_down fuel a (n - 1))"

text \<open>The decimal exponent of a positive double \<open>a\<close>: \<open>10^(n-1) \<le> a < 10^n\<close>.\<close>

definition dec_exp :: "rat \<Rightarrow> int" where
  "dec_exp a = (if 1 \<le> a then dec_up 400 a 1 else dec_down 400 a 0)"

text \<open>The decimal with \<open>k\<close> significant digits that reads back as \<open>d\<close>, if there is one.\<close>

definition digits_at :: "rat \<Rightarrow> int \<Rightarrow> rat option" where
  "digits_at d k =
     (let n = dec_exp d; w = pow10 (n - k); s = d / w; lo = \<lfloor>s\<rfloor>;
          lo_ok = (round_double (of_int lo * w) = Fin d);
          hi_ok = (round_double (of_int (lo + 1) * w) = Fin d);
          lo_near = (s - of_int lo < of_int (lo + 1) - s
                     \<or> (s - of_int lo = of_int (lo + 1) - s \<and> even lo))
      in if lo_ok \<and> (lo_near \<or> \<not> hi_ok) then Some (of_int lo * w)
         else if hi_ok then Some (of_int (lo + 1) * w)
         else None)"

fun shortest_from :: "nat \<Rightarrow> int \<Rightarrow> rat \<Rightarrow> rat option" where
  "shortest_from 0 k d = None"
| "shortest_from (Suc fuel) k d =
     (case digits_at d k of Some v \<Rightarrow> Some v | None \<Rightarrow> shortest_from fuel (k + 1) d)"

text \<open>Seventeen digits are enough for every double.\<close>

definition shortest :: "rat \<Rightarrow> rat" where
  "shortest d = (case shortest_from 17 1 d of Some v \<Rightarrow> v | None \<Rightarrow> d)"

fun num_json :: "jsnum \<Rightarrow> json" where
  "num_json (Fin d) =
     (if d = 0 then JNum 0 else if 0 < d then JNum (shortest d) else JNum (- shortest (- d)))"
| "num_json NaN = JNull"
| "num_json PInf = JNull"
| "num_json NInf = JNull"

text \<open>\<^verbatim>\<open>v || d\<close> where the default \<open>d\<close> is a JSON value.\<close>

definition js_or :: "json option \<Rightarrow> json \<Rightarrow> json" where
  "js_or v d = (case v of None \<Rightarrow> d | Some j \<Rightarrow> if truthy (Some j) then j else d)"

text \<open>
  Reading a property of the request body (\<^verbatim>\<open>req.body || {}\<close>, then
  destructuring): only an object has the properties the handlers ask for.
\<close>

definition body_field :: "json \<Rightarrow> string \<Rightarrow> json option" where
  "body_field b k = (case b of JObj kvs \<Rightarrow> map_of kvs k | _ \<Rightarrow> None)"

subsection \<open>The built-ins of the JavaScript engine\<close>

text \<open>
  Two library functions that the GET handler calls are not part of the
  program and are taken as given by the engine that runs it:
  \<^verbatim>\<open>String.prototype.toLowerCase\<close>, a function on strings fixed by the Unicode
  case mappings, and \<^verbatim>\<open>Array.prototype.sort\<close> with a comparator on products,
  whose result for a comparator that does not order the elements consistently
  ECMAScript leaves to the implementation.
\<close>

datatype engine = Engine
  (toLowerCase: "string \<Rightarrow> string")
  (array_sort: "(product \<Rightarrow> product \<Rightarrow> jsnum) \<Rightarrow> product list \<Rightarrow> product list")

subsection \<open>GET /api/products\<close>

text \<open>
  The query parameters \<^verbatim>\<open>q\<close>, \<^verbatim>\<open>category\<close>, \<^verbatim>\<open>subcategory\<close> and \<^verbatim>\<open>sort\<close>, each a
  string or absent.
\<close>

datatype query = Query
  (query_q: "string option")
  (query_category: "string option")
  (query_subcategory: "string option")
  (query_sort: "string option")

text \<open>\<^verbatim>\<open>s.includes(t)\<close>: \<open>t\<close> occurs in \<open>s\<close> as a contiguous run.\<close>

fun str_includes :: "string \<Rightarrow> string \<Rightarrow> bool" where
  "str_includes [] t = (t = [])"
| "str_includes (c # cs) t = (prefix t (c # cs) \<or> str_includes cs t)"

text \<open>
  \<^verbatim>\<open>(v || '').toLowerCase()\<close>: a falsy \<open>v\<close> gives the lowered empty string, a
  string is lowered, and any other truthy value has no \<^verbatim>\<open>toLowerCase\<close> method, so
  the call throws a TypeError.
\<close>

definition lowered :: "engine \<Rightarrow> json option \<Rightarrow> js_error + string" where
  "lowered eng v =
     (if truthy v
      then (case v of Some (JStr s) \<Rightarrow> Inr (toLowerCase eng s) | _ \<Rightarrow> Inl TypeError)
      else Inr (toLowerCase eng []))"

text \<open>
  The predicate of the text filter; \<^verbatim>\<open>||\<close> looks at the description only when
  the title does not match.
\<close>

definition matches_term :: "engine \<Rightarrow> string \<Rightarrow> product \<Rightarrow> js_error + bool" where
  "matches_term eng term p =
     (case lowered eng (field p ''title'') of
        Inl e \<Rightarrow> Inl e
      | Inr t \<Rightarrow>
          if str_includes t term then Inr True
          else (case lowered eng (field p ''description'') of
                  Inl e \<Rightarrow> Inl e
                | Inr d \<Rightarrow> Inr (str_includes d term)))"

text \<open>\<^verbatim>\<open>items.filter(...)\<close> with a predicate that may throw: the first throw ends it.\<close>

fun filter_term :: "engine \<Rightarrow> string \<Rightarrow> product list \<Rightarrow> js_error + product list" where
  "filter_term eng term [] = Inr []"
| "filter_term eng term (p # ps) =
     (case matches_term eng term p of
        Inl e \<Rightarrow> Inl e
      | Inr b \<Rightarrow>
          (case filter_term eng term ps of
             Inl e \<Rightarrow> Inl e
           | Inr r \<Rightarrow> Inr (if b then p # r else r)))"

text \<open>\<^verbatim>\<open>(a.price||0)\<close> and \<^verbatim>\<open>(a.createdAt||0)\<close> as the operand of \<^verbatim>\<open>-\<close>.\<close>

definition num_or0 :: "json option \<Rightarrow> jsnum" where
  "num_or0 v = (if truthy v then Number v else Fin 0)"

definition price_asc :: "product \<Rightarrow> product \<Rightarrow> jsnum" where
  "price_asc a b = num_sub (num_or0 (field a ''price'')) (num_or0 (field b ''price''))"

definition price_desc :: "product \<Rightarrow> product \<Rightarrow> jsnum" where
  "price_desc a b = num_sub (num_or0 (field b ''price'')) (num_or0 (field a ''price''))"

definition newest :: "product \<Rightarrow> product \<Rightarrow> jsnum" where
  "newest a b = num_sub (num_or0 (field b ''createdAt'')) (num_or0 (field a ''createdAt''))"

definition by_category :: "string option \<Rightarrow> product list \<Rightarrow> product list" where
  "by_category c items =
     (if truthy (map_option JStr c)
      then filter (\<lambda>p. field p ''category'' = map_option JStr c) items else items)"

definition by_subcategory :: "string option \<Rightarrow> product list \<Rightarrow> product list" where
  "by_subcategory c items =
     (if truthy (map_option JStr c)
      then filter (\<lambda>p. field p ''subcategory'' = map_option JStr c) items else items)"

definition by_q :: "engine \<Rightarrow> string option \<Rightarrow> product list \<Rightarrow> js_error + product list" where
  "by_q eng t items =
     (case t of
        None \<Rightarrow> Inr items
      | Some s \<Rightarrow> if s = [] then Inr items else filter_term eng (toLowerCase eng s) items)"

definition sort_items :: "engine \<Rightarrow> string option \<Rightarrow> product list \<Rightarrow> product list" where
  "sort_items eng s items =
     (let srt = (case s of None \<Rightarrow> ''newest'' | Some v \<Rightarrow> v) in
      if srt = ''price-asc'' then array_sort eng price_asc items
      else if srt = ''price-desc'' then array_sort eng price_desc items
      else array_sort eng newest items)"

definition list_items :: "engine \<Rightarrow> product list \<Rightarrow> query \<Rightarrow> js_error + product list" where
  "list_items eng db qr =
     (case by_q eng (query_q qr)
             (by_subcategory (query_subcategory qr) (by_category (query_category qr) db)) of
        Inl e \<Rightarrow> Inl e
      | Inr items \<Rightarrow> Inr (sort_items eng (query_sort qr) items))"

definition get_products ::
    "engine \<Rightarrow> product list \<Rightarrow> query \<Rightarrow> (js_error + response) \<times> product list" where
  "get_products eng db qr =
     (case list_items eng db qr of
        Inl e \<Rightarrow> (Inl e, db)
      | Inr items \<Rightarrow> (Inr (Response 200 (Some (JObj [(''items'', JArr (map JObj items))]))), db))"

subsection \<open>POST /api/products\<close>

text \<open>\<open>now\<close> is what \<^verbatim>\<open>Date.now()\<close> returns, in milliseconds.\<close>

definition new_product :: "int \<Rightarrow> product list \<Rightarrow> json \<Rightarrow> json \<Rightarrow> json \<Rightarrow> product" where
  "new_product now db title category b =
     [(''id'', num_json (nextId db)),
      (''title'', title),
      (''description'', js_or (body_field b ''description'') (JStr [])),
      (''price'', num_json (num_or (Number (body_field b ''price'')) (Fin 0))),
      (''category'', category),
      (''subcategory'', js_or (body_field b ''subcategory'') (JStr [])),
      (''images'', (case body_field b ''images'' of Some (JArr xs) \<Rightarrow> JArr xs | _ \<Rightarrow> JArr [])),
      (''likes'', JNum 0),
      (''dislikes'', JNum 0),
      (''createdAt'', JNum (of_int now))]"

definition post_products :: "int \<Rightarrow> product list \<Rightarrow> json \<Rightarrow> response \<times> product list" where
  "post_products now db b =
     (case (body_field b ''title'', body_field b ''category'') of
        (Some title, Some category) \<Rightarrow>
          if \<not> truthy (Some title) \<or> \<not> truthy (Some category)
          then (Response 400 (Some (error_body ''title and category are required'')), db)
          else (let prod = new_product now db title category b
                in (Response 201 (Some (JObj prod)), db @ [prod]))
      | _ \<Rightarrow> (Response 400 (Some (error_body ''title and category are required'')), db))"

subsection \<open>PUT /api/products/:id\<close>

text \<open>\<^verbatim>\<open>findIndex\<close>: the first index whose element satisfies the test; \<open>None\<close> for -1.\<close>

fun findIndex :: "('a \<Rightarrow> bool) \<Rightarrow> 'a list \<Rightarrow> nat option" where
  "findIndex f [] = None"
| "findIndex f (x # xs) =
     (if f x then Some 0 else (case findIndex f xs of None \<Rightarrow> None | Some i \<Rightarrow> Some (Suc i)))"

text \<open>The decimal name of an array index, as a property key.\<close>

fun index_key :: "nat \<Rightarrow> string" where
  "index_key n =
     (if n < 10 then [char_of (48 + n)] else index_key (n div 10) @ [char_of (48 + n mod 10)])"

declare index_key.simps [simp del]

text \<open>
  The own properties that \<^verbatim>\<open>...req.body\<close> copies, each key once: those of an
  object, the indexed elements of an array, none of \<^verbatim>\<open>null\<close>, a number or a
  boolean, the characters of a string.
\<close>

fun own_props :: "json \<Rightarrow> (string \<times> json) list" where
  "own_props (JObj kvs) = AList.clearjunk kvs"
| "own_props (JArr xs) = zip (map index_key [0..<length xs]) xs"
| "own_props (JStr s) = zip (map index_key [0..<length s]) (map (\<lambda>c. JStr [c]) s)"
| "own_props JNull = []"
| "own_props (JBool b) = []"
| "own_props (JNum r) = []"

text \<open>\<^verbatim>\<open>{ ...prev, ...req.body, id: prev.id }\<close>\<close>

definition merged :: "product \<Rightarrow> json \<Rightarrow> product" where
  "merged prev b =
     (let o1 = fold (\<lambda>(k, v). AList.update k v) (own_props b) prev
      in case field prev ''id'' of
           Some i \<Rightarrow> AList.update ''id'' i o1
         | None \<Rightarrow> AList.delete ''id'' o1)"

definition put_product :: "product list \<Rightarrow> string \<Rightarrow> json \<Rightarrow> response \<times> product list" where
  "put_product db pid b =
     (let id = Number (Some (JStr pid)) in
      case findIndex (\<lambda>p. num_eq (Number (field p ''id'')) id) db of
        None \<Rightarrow> (Response 404 (Some (error_body ''Not found'')), db)
      | Some idx \<Rightarrow>
          (let prev = db ! idx;
               next = merged prev b
           in (Response 200 (Some (JObj next)), db[idx := next])))"

subsection \<open>DELETE /api/products/:id\<close>

definition delete_product :: "product list \<Rightarrow> string \<Rightarrow> response \<times> product list" where
  "delete_product db pid =
     (let id = Number (Some (JStr pid));
          before' = length db;
          products = filter (\<lambda>p. \<not> num_eq (Number (field p ''id'')) id) db
      in if length products = before'
         then (Response 404 (Some (error_body ''Not found'')), db)
         else (Response 204 None, products))"

subsection \<open>Start-up: the seed block\<close>

definition seed :: "int \<Rightarrow> int \<Rightarrow> product list" where
  "seed t1 t2 =
     [[(''id'', JNum 1),
       (''title'', JStr ''iPhone 13 Pro''),
       (''description'', JStr ''Excellent condition, 256GB, Graphite.''),
       (''price'', JNum 799),
       (''category'', JStr ''Electronics''),
       (''subcategory'', JStr ''Smartphones & Tablets''),
       (''images'', JArr [JStr ''https://images.unsplash.com/photo-1603899124210-36e0f7a5a8f0?w=1200'']),
       (''likes'', JNum 12),
       (''dislikes'', JNum 1),
       (''createdAt'', JNum (of_int t1))],
      [(''id'', JNum 2),
       (''title'', JStr ''Gaming Chair''),
       (''description'', JStr ''Ergonomic chair, adjustable armrests.''),
       (''price'', JNum (14999 / 100)),
       (''category'', JStr ''Home & Garden''),
       (''subcategory'', JStr ''Furniture''),
       (''images'', JArr [JStr ''https://images.unsplash.com/photo-1582582494700-1b1a3e6a96d2?w=1200'']),
       (''likes'', JNum 3),
       (''dislikes'', JNum 0),
       (''createdAt'', JNum (of_int t2))]]"

text \<open>
  The document is what \<^verbatim>\<open>db.read()\<close> left in \<^verbatim>\<open>db.data\<close>: an object, or nothing
  (then \<^verbatim>\<open>{ products: [] }\<close> is taken). The result is the document after the
  block and whether \<^verbatim>\<open>db.write()\<close> was called. \<open>t1\<close> and \<open>t2\<close> are the two
  readings of \<^verbatim>\<open>Date.now()\<close>.
\<close>

definition bootstrap :: "int \<Rightarrow> int \<Rightarrow> (string \<times> json) list option \<Rightarrow> (string \<times> json) list \<times> bool" where
  "bootstrap t1 t2 data =
     (let doc = (case data of None \<Rightarrow> [(''products'', JArr [])] | Some d \<Rightarrow> d) in
      case map_of doc ''products'' of
        Some (JArr (x # xs)) \<Rightarrow> (doc, False)
      | _ \<Rightarrow> (AList.update ''products'' (JArr (map JObj (seed t1 t2))) doc, True))"

section \<open>Sequences of requests\<close>

datatype request =
    Get query
  | Post int json
  | Put string json
  | Delete string

text \<open>The file after a request.\<close>

fun handle :: "engine \<Rightarrow> product list \<Rightarrow> request \<Rightarrow> product list" where
  "handle eng db (Get qr) = snd (get_products eng db qr)"
| "handle eng db (Post now b) = snd (post_products now db b)"
| "handle eng db (Put pid b) = snd (put_product db pid b)"
| "handle eng db (Delete pid) = snd (delete_product db pid)"

definition run :: "engine \<Rightarrow> product list \<Rightarrow> request list \<Rightarrow> product list" where
  "run eng db rs = foldl (handle eng) db rs"

section \<open>Notions used in the statements\<close>

text \<open>
  The test by which PUT and DELETE find their product:
  \<^verbatim>\<open>Number(p.id) === Number(req.params.id)\<close>.
\<close>

definition id_matches :: "string \<Rightarrow> product \<Rightarrow> bool" where
  "id_matches pid p = num_eq (Number (field p ''id'')) (Number (Some (JStr pid)))"

text \<open>
  The ids of a collection are unique when that comparison tells any two
  products apart.
\<close>

fun ids_unique :: "product list \<Rightarrow> bool" where
  "ids_unique [] = True"
| "ids_unique (p # ps) =
     ((\<forall>q \<in> set ps. \<not> num_eq (Number (field p ''id'')) (Number (field q ''id''))) \<and> ids_unique ps)"

text \<open>
  Every stored id that reads as a positive number is an integer below \<open>2^53\<close>;
  an id that reads as NaN, as 0 or as a negative number is any.
\<close>

definition safe_ids :: "product list \<Rightarrow> bool" where
  "safe_ids db =
     (\<forall>p \<in> set db.
        case Number (field p ''id'') of
          Fin r \<Rightarrow> r \<le> 0 \<or> (of_int \<lfloor>r\<rfloor> = r \<and> r < 2 ^ 53)
        | PInf \<Rightarrow> False
        | _ \<Rightarrow> True)"

text \<open>The same with the bound \<open>B\<close> in place of \<open>2^53 - 1\<close>.\<close>

definition ids_at_most :: "int \<Rightarrow> product list \<Rightarrow> bool" where
  "ids_at_most B db =
     (\<forall>p \<in> set db.
        case Number (field p ''id'') of
          Fin r \<Rightarrow> r \<le> 0 \<or> (of_int \<lfloor>r\<rfloor> = r \<and> r \<le> of_int B)
        | PInf \<Rightarrow> False
        | _ \<Rightarrow> True)"

text \<open>
  The lowered text of a title or description, an absent one being the empty
  string.
\<close>

definition lower_text :: "engine \<Rightarrow> json option \<Rightarrow> string" where
  "lower_text eng v = (case v of Some (JStr s) \<Rightarrow> toLowerCase eng s | _ \<Rightarrow> toLowerCase eng [])"

text \<open>A title or description the text filter can read: falsy, or a string.\<close>

definition text_ok :: "json option \<Rightarrow> bool" where
  "text_ok v = (case v of Some (JStr s) \<Rightarrow> True | _ \<Rightarrow> \<not> truthy v)"

text \<open>
  The specification's filter: every filter that is provided (present and not
  empty) must hold of the product.
\<close>

definition kept :: "engine \<Rightarrow> query \<Rightarrow> product \<Rightarrow> bool" where
  "kept eng qr p =
     ((case query_category qr of
         None \<Rightarrow> True
       | Some c \<Rightarrow> c = [] \<or> field p ''category'' = Some (JStr c))
      \<and> (case query_subcategory qr of
            None \<Rightarrow> True
          | Some c \<Rightarrow> c = [] \<or> field p ''subcategory'' = Some (JStr c))
      \<and> (case query_q qr of
            None \<Rightarrow> True
          | Some t \<Rightarrow>
              t = [] \<or> sublist (toLowerCase eng t) (lower_text eng (field p ''title''))
              \<or> sublist (toLowerCase eng t) (lower_text eng (field p ''description''))))"

text \<open>The sort keys: the price, and the creation time, an absent one being 0.\<close>

definition price_of :: "product \<Rightarrow> jsnum" where
  "price_of p = num_or0 (field p ''price'')"

definition createdAt_of :: "product \<Rightarrow> jsnum" where
  "createdAt_of p = num_or0 (field p ''createdAt'')"

text \<open>
  What ECMAScript asks of \<^verbatim>\<open>Array.prototype.sort\<close>. The comparator's result
  counts by its sign, NaN as 0. A comparator is consistent on a set of
  elements when it is reflexive, antisymmetric and transitive there. The
  result of a sort is a rearrangement of its input, and for a consistent
  comparator no element comes before one that the comparator puts before it.
\<close>

fun cmp_sign :: "jsnum \<Rightarrow> int" where
  "cmp_sign NaN = 0"
| "cmp_sign PInf = 1"
| "cmp_sign NInf = - 1"
| "cmp_sign (Fin r) = (if r < 0 then - 1 else if r = 0 then 0 else 1)"

definition consistent_on :: "('a \<Rightarrow> 'a \<Rightarrow> jsnum) \<Rightarrow> 'a set \<Rightarrow> bool" where
  "consistent_on cmp S =
     (\<forall>a \<in> S. \<forall>b \<in> S. \<forall>c \<in> S.
        cmp_sign (cmp a a) = 0
        \<and> cmp_sign (cmp a b) = - cmp_sign (cmp b a)
        \<and> (cmp_sign (cmp a b) \<le> 0 \<and> cmp_sign (cmp b c) \<le> 0 \<longrightarrow> cmp_sign (cmp a c) \<le> 0))"

definition conforming :: "engine \<Rightarrow> bool" where
  "conforming eng =
     (\<forall>cmp xs.
        mset (array_sort eng cmp xs) = mset xs
        \<and> (consistent_on cmp (set xs) \<longrightarrow>
             sorted_wrt (\<lambda>a b. cmp_sign (cmp a b) \<le> 0) (array_sort eng cmp xs)))"

text \<open>
  An engine to evaluate examples with. It lowers the letters of Basic Latin
  and of the Latin-1 Supplement (U+00C0 to U+00DE without U+00D7, in UTF-8 the
  byte C3 and a byte from 80 to 9E without 97), as \<^verbatim>\<open>toLowerCase\<close> does on strings
  of these characters, and it sorts by stable insertion, which meets what
  ECMAScript asks.
\<close>

fun lower_latin1 :: "nat list \<Rightarrow> nat list" where
  "lower_latin1 [] = []"
| "lower_latin1 [a] = [if 65 \<le> a \<and> a \<le> 90 then a + 32 else a]"
| "lower_latin1 (a # b # r) =
     (if a = 195 \<and> 128 \<le> b \<and> b \<le> 158 \<and> b \<noteq> 151 then a # (b + 32) # lower_latin1 r
      else (if 65 \<le> a \<and> a \<le> 90 then a + 32 else a) # lower_latin1 (b # r))"

definition lower_example :: "string \<Rightarrow> string" where
  "lower_example s = map char_of (lower_latin1 (map of_char s))"

fun insert_by :: "('a \<Rightarrow> 'a \<Rightarrow> jsnum) \<Rightarrow> 'a \<Rightarrow> 'a list \<Rightarrow> 'a list" where
  "insert_by cmp x [] = [x]"
| "insert_by cmp x (y # ys) =
     (if 0 < cmp_sign (cmp x y) then y # insert_by cmp x ys else x # y # ys)"

definition insertion_sort :: "('a \<Rightarrow> 'a \<Rightarrow> jsnum) \<Rightarrow> 'a list \<Rightarrow> 'a list" where
  "insertion_sort cmp xs = foldr (insert_by cmp) xs []"

definition example_engine :: engine where
  "example_engine = Engine lower_example insertion_sort"

text \<open>
  Every finite double is a whole multiple of \<open>2^-1074\<close>, the smallest positive
  one.
\<close>

definition on_grid :: "jsnum \<Rightarrow> bool" where
  "on_grid v =
     (case v of Fin r \<Rightarrow> r / pow2 (- 1074) = of_int \<lfloor>r / pow2 (- 1074)\<rfloor> | _ \<Rightarrow> True)"

text \<open>The order of two numbers as a sign.\<close>

definition ord3 :: "jsnum \<Rightarrow> jsnum \<Rightarrow> int" where
  "ord3 a b = (if num_lt a b then - 1 else if num_lt b a then 1 else 0)"



section \<open>Doubles\<close>

lemma pow2_powi: "pow2 e = 2 powi e"
  by (simp add: pow2_def power_int_def inverse_eq_divide power_one_over)

lemma pow2_pos: "0 < pow2 e"
  by (simp add: pow2_powi zero_less_power_int)

lemma pow2_add: "pow2 (a + b) = pow2 a * pow2 b"
  by (simp add: pow2_powi power_int_add)

lemma pow2_diff: "pow2 (a - b) = pow2 a / pow2 b"
  by (simp add: pow2_powi power_int_diff)

lemma pow2_nat: "pow2 (int n) = 2 ^ n"
  by (simp add: pow2_def)

lemma pow2_mono: "a \<le> b \<Longrightarrow> pow2 a \<le> pow2 b"
  by (simp add: pow2_powi power_int_increasing)

lemma pow2_strict_mono: "a < b \<Longrightarrow> pow2 a < pow2 b"
  by (simp add: pow2_powi power_int_strict_increasing)

lemma pow2_le_imp: "pow2 a \<le> pow2 b \<Longrightarrow> a \<le> b"
  using pow2_strict_mono[of b a] by (cases "a \<le> b") auto

lemma pow2_less_imp: "pow2 a < pow2 b \<Longrightarrow> a < b"
  using pow2_mono[of b a] by (cases "a < b") auto

lemma floor_log2_bounds:
  assumes "0 < a"
  shows "pow2 (floor_log2 a) \<le> a \<and> a < pow2 (floor_log2 a + 1)"
proof -
  obtain p q where pq: "quotient_of a = (p, q)" by (cases "quotient_of a")
  then have q: "0 < q" and a: "a = of_int p / of_int q"
    using quotient_of_denom_pos quotient_of_div by auto
  from assms a q have p: "0 < p" by (simp add: zero_less_divide_iff)
  let ?bp = "bitlen p" and ?bq = "bitlen q"
  from bitlen_bounds[OF p] have p1: "2 ^ nat (?bp - 1) \<le> p" and p2: "p < 2 ^ nat ?bp" by auto
  from bitlen_bounds[OF q] have q1: "2 ^ nat (?bq - 1) \<le> q" and q2: "q < 2 ^ nat ?bq" by auto
  have bp: "1 \<le> ?bp" using p by (auto simp: bitlen_alt_def)
  have bq: "1 \<le> ?bq" using q by (auto simp: bitlen_alt_def)
  have P1: "pow2 (?bp - 1) \<le> of_int p"
  proof -
    have "(of_int (2 ^ nat (?bp - 1)) :: rat) \<le> of_int p" using p1 by (simp only: of_int_le_iff)
    moreover have "pow2 (?bp - 1) = 2 ^ nat (?bp - 1)" using bp by (simp add: pow2_def)
    ultimately show ?thesis by simp
  qed
  have P2: "of_int p < pow2 ?bp"
  proof -
    have "(of_int p :: rat) < of_int (2 ^ nat ?bp)" using p2 by (simp only: of_int_less_iff)
    moreover have "pow2 ?bp = 2 ^ nat ?bp" using bp by (simp add: pow2_def)
    ultimately show ?thesis by simp
  qed
  have Q1: "pow2 (?bq - 1) \<le> of_int q"
  proof -
    have "(of_int (2 ^ nat (?bq - 1)) :: rat) \<le> of_int q" using q1 by (simp only: of_int_le_iff)
    moreover have "pow2 (?bq - 1) = 2 ^ nat (?bq - 1)" using bq by (simp add: pow2_def)
    ultimately show ?thesis by simp
  qed
  have Q2: "of_int q < pow2 ?bq"
  proof -
    have "(of_int q :: rat) < of_int (2 ^ nat ?bq)" using q2 by (simp only: of_int_less_iff)
    moreover have "pow2 ?bq = 2 ^ nat ?bq" using bq by (simp add: pow2_def)
    ultimately show ?thesis by simp
  qed
  have qpos: "(0::rat) < of_int q" using q by simp
  have ppos: "(0::rat) < of_int p" using p by simp
  have upper: "a < pow2 (?bp - ?bq + 1)"
  proof -
    have "a * of_int q = of_int p" using a qpos by simp
    also have "\<dots> < pow2 ?bp" by (rule P2)
    also have "\<dots> = pow2 (?bp - ?bq + 1) * pow2 (?bq - 1)"
      by (simp add: pow2_add[symmetric])
    also have "\<dots> \<le> pow2 (?bp - ?bq + 1) * of_int q"
      using Q1 pow2_pos[of "?bp - ?bq + 1"] by (simp add: mult_left_mono)
    finally show ?thesis using qpos by (simp add: mult_less_cancel_right)
  qed
  have lower: "pow2 (?bp - ?bq - 1) < a"
  proof -
    have "pow2 (?bp - ?bq - 1) * of_int q < pow2 (?bp - ?bq - 1) * pow2 ?bq"
      using Q2 pow2_pos[of "?bp - ?bq - 1"] by (simp add: mult_strict_left_mono)
    also have "\<dots> = pow2 (?bp - 1)" by (simp add: pow2_add[symmetric])
    also have "\<dots> \<le> of_int p" by (rule P1)
    also have "\<dots> = a * of_int q" using a qpos by simp
    finally show ?thesis using qpos by (simp add: mult_less_cancel_right)
  qed
  show ?thesis
  proof (cases "pow2 (?bp - ?bq) \<le> a")
    case True
    then have "floor_log2 a = ?bp - ?bq" by (simp add: floor_log2_def pq)
    with True upper show ?thesis by simp
  next
    case False
    then have "floor_log2 a = ?bp - ?bq - 1" by (simp add: floor_log2_def pq)
    with False lower show ?thesis by simp
  qed
qed

lemma round_half_even_int: "round_half_even (of_int z) = z"
  by (simp add: round_half_even_def)

lemma round_half_even_ge1: "1 \<le> t \<Longrightarrow> 1 \<le> round_half_even t"
proof -
  assume "1 \<le> t"
  then have "1 \<le> \<lfloor>t\<rfloor>" by (simp add: le_floor_iff)
  then show ?thesis by (auto simp: round_half_even_def Let_def)
qed

text \<open>A value whose quotient by the spacing of its binade is an integer is a double.\<close>

lemma round_double_exact:
  assumes "r \<noteq> 0" "max (floor_log2 \<bar>r\<bar>) (- 1022) \<le> 1022"
    and "\<bar>r\<bar> / pow2 (max (floor_log2 \<bar>r\<bar>) (- 1022) - 52) = of_int z"
  shows "round_double r = Fin r"
proof -
  let ?e = "max (floor_log2 \<bar>r\<bar>) (- 1022)"
  let ?u = "pow2 (?e - 52)"
  have u: "?u \<noteq> 0" using pow2_pos[of "?e - 52"] by simp
  have "sgn r * of_int z * ?u = sgn r * (\<bar>r\<bar> / ?u) * ?u" by (simp only: assms(3))
  also have "\<dots> = sgn r * \<bar>r\<bar>" using u by simp
  also have "\<dots> = r" by (simp add: sgn_mult_abs)
  finally have v: "sgn r * of_int z * ?u = r" .
  from assms(2) have "\<not> 1023 < ?e" and "?e \<noteq> 1023" by linarith+
  then have no: "\<not> (1023 < ?e \<or> (?e = 1023 \<and> z = 2 ^ 53))"
    by blast
  have n: "round_half_even (\<bar>r\<bar> / ?u) = z" by (simp only: assms(3) round_half_even_int)
  show ?thesis
    unfolding round_double_def Let_def
    using no by (simp only: assms(1) if_False n v)
qed

text \<open>The integers up to \<open>2^53\<close> are doubles.\<close>

lemma round_double_small_int:
  assumes "0 < i" "i \<le> 2 ^ 53"
  shows "round_double (of_int i) = Fin (of_int i)"
proof -
  let ?a = "of_int i :: rat"
  have apos: "0 < ?a" using assms(1) by simp
  let ?e = "floor_log2 ?a"
  from floor_log2_bounds[OF apos] have lo: "pow2 ?e \<le> ?a" and hi: "?a < pow2 (?e + 1)" by auto
  have "(1::rat) \<le> ?a" using assms(1) by simp
  with hi have "pow2 0 < pow2 (?e + 1)" by (simp add: pow2_def)
  then have e0: "0 \<le> ?e" using pow2_less_imp[of 0 "?e + 1"] by simp
  have a53: "?a \<le> pow2 53"
  proof -
    have "(of_int i :: rat) \<le> of_int (2 ^ 53)" using assms(2) by (simp only: of_int_le_iff)
    then show ?thesis by (simp add: pow2_def)
  qed
  with lo have "pow2 ?e \<le> pow2 53" by simp
  then have e53: "?e \<le> 53" by (rule pow2_le_imp)
  have m: "max ?e (- 1022) = ?e" using e0 by simp
  have "\<exists>z. ?a / pow2 (?e - 52) = of_int z"
  proof (cases "?e \<le> 52")
    case True
    have "?a / pow2 (?e - 52) = ?a * pow2 (52 - ?e)"
      using pow2_pos[of "?e - 52"] pow2_add[of "?e - 52" "52 - ?e"]
      by (simp add: field_simps pow2_def)
    also have "pow2 (52 - ?e) = of_int (2 ^ nat (52 - ?e))" using True by (simp add: pow2_def)
    finally have "?a / pow2 (?e - 52) = of_int (i * 2 ^ nat (52 - ?e))" by simp
    then show ?thesis by blast
  next
    case False
    with e53 have e: "?e = 53" by simp
    with lo a53 have a: "?a = pow2 53" by simp
    have "?e - 52 = 1" using e by simp
    then have "?a / pow2 (?e - 52) = pow2 53 / pow2 1" by (simp only: a)
    also have "\<dots> = of_int (2 ^ 52)" by (simp add: pow2_def)
    finally show ?thesis by blast
  qed
  then obtain z where z: "\<bar>?a\<bar> / pow2 (max (floor_log2 \<bar>?a\<bar>) (- 1022) - 52) = of_int z"
    using apos m by (auto simp: abs_of_pos)
  have "round_double ?a = Fin ?a"
  proof (rule round_double_exact[OF _ _ z])
    show "?a \<noteq> 0" using apos by simp
    show "max (floor_log2 \<bar>?a\<bar>) (- 1022) \<le> 1022" using apos m e53 by (simp add: abs_of_pos)
  qed
  then show ?thesis .
qed

lemma on_grid_Fin: "on_grid (Fin r) = (\<exists>k::int. r = of_int k * pow2 (- 1074))"
proof
  assume "on_grid (Fin r)"
  then have "r / pow2 (- 1074) = of_int \<lfloor>r / pow2 (- 1074)\<rfloor>" by (simp add: on_grid_def)
  then have "r = of_int \<lfloor>r / pow2 (- 1074)\<rfloor> * pow2 (- 1074)"
    using pow2_pos[of "- 1074"] by (simp add: field_simps)
  then show "\<exists>k::int. r = of_int k * pow2 (- 1074)" by blast
next
  assume "\<exists>k::int. r = of_int k * pow2 (- 1074)"
  then obtain k :: int where "r = of_int k * pow2 (- 1074)" by blast
  then have "r / pow2 (- 1074) = of_int k" using pow2_pos[of "- 1074"] by simp
  then show "on_grid (Fin r)" by (simp add: on_grid_def)
qed

lemma on_grid_round_double: "on_grid (round_double r)"
proof (cases "r = 0")
  case True
  then show ?thesis by (simp add: round_double_def on_grid_def)
next
  case False
  let ?e = "max (floor_log2 \<bar>r\<bar>) (- 1022)"
  let ?n = "round_half_even (\<bar>r\<bar> / pow2 (?e - 52))"
  have e: "0 \<le> ?e - 52 + 1074" by simp
  have u: "pow2 (?e - 52) = of_int (2 ^ nat (?e - 52 + 1074)) * pow2 (- 1074)"
  proof -
    have "pow2 (?e - 52) = pow2 (?e - 52 + 1074) * pow2 (- 1074)"
      by (simp add: pow2_add[symmetric])
    moreover have "pow2 (?e - 52 + 1074) = 2 ^ nat (?e - 52 + 1074)"
      using e by (simp only: pow2_def if_True)
    ultimately show ?thesis by simp
  qed
  obtain sg :: int where s: "sgn r = of_int sg"
  proof (cases "0 < r")
    case True
    then have "sgn r = of_int 1" by simp
    then show ?thesis by (rule that)
  next
    case False
    with \<open>r \<noteq> 0\<close> have "sgn r = of_int (- 1)" by (simp add: sgn_if)
    then show ?thesis by (rule that)
  qed
  have "sgn r * of_int ?n * pow2 (?e - 52)
      = of_int (sg * ?n * 2 ^ nat (?e - 52 + 1074)) * pow2 (- 1074)"
    by (subst u, subst s) simp
  then have "on_grid (Fin (sgn r * of_int ?n * pow2 (?e - 52)))"
    unfolding on_grid_Fin by blast
  then show ?thesis
    using False by (simp add: round_double_def Let_def on_grid_def)
qed

lemma on_grid_neg: "on_grid a \<Longrightarrow> on_grid (num_neg a)"
proof (cases a)
  case (Fin r)
  assume "on_grid a"
  with Fin obtain k :: int where "r = of_int k * pow2 (- 1074)" by (auto simp: on_grid_Fin)
  then have "- r = of_int (- k) * pow2 (- 1074)" by simp
  then show ?thesis unfolding Fin num_neg.simps on_grid_Fin by blast
qed (simp_all add: on_grid_def)

lemma on_grid_simps: "on_grid NaN" "on_grid PInf" "on_grid NInf" "on_grid (Fin 0)" "on_grid (Fin 1)"
proof -
  have "(1::rat) = of_int (2 ^ 1074) * pow2 (- 1074)" by (simp add: pow2_def)
  then show "on_grid (Fin 1)" unfolding on_grid_Fin by blast
qed (simp_all add: on_grid_def)

lemma on_grid_unsigned_decimal: "on_grid (unsigned_decimal s)"
  by (auto simp: unsigned_decimal_def Let_def on_grid_simps on_grid_round_double split: option.splits)

lemma on_grid_signed_decimal: "on_grid (signed_decimal s)"
  by (auto simp: signed_decimal_def on_grid_simps on_grid_unsigned_decimal on_grid_neg
           split: list.splits)

lemma on_grid_StringToNumber: "on_grid (StringToNumber s)"
  by (auto simp: StringToNumber_def Let_def on_grid_simps on_grid_signed_decimal on_grid_round_double
           split: list.splits option.splits)

lemma on_grid_to_number: "on_grid (to_number j)"
  by (induction j rule: to_number.induct)
     (simp_all add: on_grid_simps on_grid_round_double on_grid_StringToNumber)

lemma on_grid_num_or0: "on_grid (num_or0 v)"
  by (cases v) (simp_all add: num_or0_def Number_def on_grid_simps on_grid_to_number)

text \<open>Rounding keeps the sign of a value that is at least the smallest double.\<close>

lemma round_double_positive:
  assumes "pow2 (- 1074) \<le> r"
  shows "num_lt (Fin 0) (round_double r)"
proof -
  have rpos: "0 < r" using assms pow2_pos[of "- 1074"] by linarith
  let ?e1 = "floor_log2 \<bar>r\<bar>"
  let ?e = "max ?e1 (- 1022)"
  let ?u = "pow2 (?e - 52)"
  let ?n = "round_half_even (\<bar>r\<bar> / ?u)"
  have a: "\<bar>r\<bar> = r" using rpos by simp
  from floor_log2_bounds[of "\<bar>r\<bar>"] rpos have lo: "pow2 ?e1 \<le> r" by (simp add: a)
  have "?u \<le> r"
  proof (cases "- 1022 \<le> ?e1")
    case True
    then have "?e = ?e1" by simp
    then have "?u \<le> pow2 ?e1" using pow2_mono[of "?e1 - 52" ?e1] by simp
    with lo show ?thesis by linarith
  next
    case False
    then have "?e = - 1022" by simp
    then have "?u = pow2 (- 1074)" by simp
    with assms show ?thesis by simp
  qed
  then have "1 \<le> \<bar>r\<bar> / ?u" using pow2_pos[of "?e - 52"] by (simp add: a le_divide_eq)
  then have n: "1 \<le> ?n" by (rule round_half_even_ge1)
  have "0 < sgn r * of_int ?n * ?u"
    using rpos n pow2_pos[of "?e - 52"] by (simp add: sgn_if)
  then show ?thesis
    using rpos by (simp add: round_double_def Let_def)
qed

lemma round_double_minus: "round_double (- r) = num_neg (round_double r)"
proof (cases "r = 0")
  case True
  then show ?thesis by (simp add: round_double_def)
next
  case False
  let ?e = "max (floor_log2 \<bar>r\<bar>) (- 1022)"
  let ?n = "round_half_even (\<bar>r\<bar> / pow2 (?e - 52))"
  have l: "round_double (- r) =
      (if 1023 < ?e \<or> (?e = 1023 \<and> ?n = 2 ^ 53) then (if 0 < - r then PInf else NInf)
       else Fin (sgn (- r) * of_int ?n * pow2 (?e - 52)))"
    using False by (simp only: round_double_def Let_def abs_minus_cancel neg_equal_0_iff_equal if_False)
  have r: "round_double r =
      (if 1023 < ?e \<or> (?e = 1023 \<and> ?n = 2 ^ 53) then (if 0 < r then PInf else NInf)
       else Fin (sgn r * of_int ?n * pow2 (?e - 52)))"
    using False by (simp only: round_double_def Let_def if_False)
  show ?thesis
    unfolding l r using False by (cases "0 < r") (auto simp: sgn_if)
qed

lemma round_double_negative:
  assumes "r \<le> - pow2 (- 1074)"
  shows "num_lt (round_double r) (Fin 0)"
proof -
  have "pow2 (- 1074) \<le> - r" using assms by simp
  from round_double_positive[OF this] show ?thesis
    by (cases "round_double r") (simp_all add: round_double_minus)
qed

lemma grid_gap:
  assumes "on_grid (Fin x)" "on_grid (Fin y)" "x < y"
  shows "pow2 (- 1074) \<le> y - x"
proof -
  from assms obtain k l :: int where k: "x = of_int k * pow2 (- 1074)" and l: "y = of_int l * pow2 (- 1074)"
    by (auto simp: on_grid_Fin)
  with assms(3) have "k < l" using pow2_pos[of "- 1074"] by (simp add: mult_less_cancel_right)
  then have "(1::rat) \<le> of_int (l - k)" by simp
  then have "1 * pow2 (- 1074) \<le> of_int (l - k) * pow2 (- 1074)"
    using pow2_pos[of "- 1074"] by (simp only: mult_le_cancel_right) simp
  then show ?thesis by (simp add: k l algebra_simps)
qed

text \<open>The sign of the difference of two doubles is their order.\<close>

lemma cmp_sign_sub:
  assumes "on_grid a" "on_grid b" "a \<noteq> NaN" "b \<noteq> NaN"
  shows "cmp_sign (num_sub a b) = ord3 a b"
proof (cases a)
  case NaN
  with assms show ?thesis by simp
next
  case PInf
  with assms show ?thesis by (cases b) (simp_all add: num_sub_def ord3_def)
next
  case NInf
  with assms show ?thesis by (cases b) (simp_all add: num_sub_def ord3_def)
next
  case (Fin x)
  show ?thesis
  proof (cases b)
    case (Fin y)
    have s: "num_sub a b = round_double (x - y)" by (simp add: \<open>a = Fin x\<close> Fin num_sub_def)
    consider "x < y" | "x = y" | "y < x" by linarith
    then show ?thesis
    proof cases
      case 1
      from grid_gap[OF _ _ 1] assms \<open>a = Fin x\<close> Fin have "x - y \<le> - pow2 (- 1074)" by simp
      from round_double_negative[OF this] have "cmp_sign (round_double (x - y)) = - 1"
        by (cases "round_double (x - y)") (auto split: if_splits)
      then have "cmp_sign (num_sub a b) = - 1" by (simp only: s)
      moreover from 1 have "ord3 a b = - 1" by (simp add: ord3_def \<open>a = Fin x\<close> Fin)
      ultimately show ?thesis by simp
    next
      case 2
      then have "cmp_sign (num_sub a b) = 0" by (simp add: s round_double_def)
      moreover from 2 have "ord3 a b = 0" by (simp add: ord3_def \<open>a = Fin x\<close> Fin)
      ultimately show ?thesis by simp
    next
      case 3
      from grid_gap[OF _ _ 3] assms \<open>a = Fin x\<close> Fin have "pow2 (- 1074) \<le> x - y" by simp
      from round_double_positive[OF this] have "cmp_sign (round_double (x - y)) = 1"
        by (cases "round_double (x - y)") (auto split: if_splits)
      then have "cmp_sign (num_sub a b) = 1" by (simp only: s)
      moreover from 3 have "ord3 a b = 1" by (simp add: ord3_def \<open>a = Fin x\<close> Fin)
      ultimately show ?thesis by simp
    qed
  qed (use assms \<open>a = Fin x\<close> in \<open>simp_all add: num_sub_def ord3_def\<close>)
qed

lemma ord3_le_iff: "a \<noteq> NaN \<Longrightarrow> b \<noteq> NaN \<Longrightarrow> (ord3 a b \<le> 0) = num_le a b"
  by (cases a; cases b) (auto simp: ord3_def num_le_def num_eq_def)

text \<open>What \<^verbatim>\<open>JSON.stringify\<close> writes for a double reads back as that double.\<close>

lemma digits_at_reads_back: "digits_at d k = Some v \<Longrightarrow> round_double v = Fin d"
  by (auto simp: digits_at_def Let_def split: if_splits)

lemma shortest_from_reads_back: "shortest_from fuel k d = Some v \<Longrightarrow> round_double v = Fin d"
  by (induction fuel arbitrary: k) (auto split: option.splits dest: digits_at_reads_back)

lemma shortest_reads_back: "round_double d = Fin d \<Longrightarrow> round_double (shortest d) = Fin d"
  by (auto simp: shortest_def split: option.splits dest: shortest_from_reads_back)

lemma num_json_reads_back:
  assumes "0 \<le> d" "round_double d = Fin d"
  shows "to_number (num_json (Fin d)) = Fin d"
proof (cases "d = 0")
  case True
  then show ?thesis by (simp add: round_double_def)
next
  case False
  with assms(1) have "0 < d" by simp
  then have "num_json (Fin d) = JNum (shortest d)" by simp
  then show ?thesis by (simp add: shortest_reads_back[OF assms(2)])
qed


section \<open>Numbers: order and maximum\<close>

lemma num_le_refl: "a \<noteq> NaN \<Longrightarrow> num_le a a"
  by (simp add: num_le_def num_eq_def)

lemma num_le_trans: "num_le a b \<Longrightarrow> num_le b c \<Longrightarrow> num_le a c"
  by (cases a; cases b; cases c) (auto simp: num_le_def num_eq_def)

lemma num_le_antisym: "num_le a b \<Longrightarrow> num_le b a \<Longrightarrow> a = b"
  by (cases a; cases b) (auto simp: num_le_def num_eq_def)

lemma num_le_total: "a \<noteq> NaN \<Longrightarrow> b \<noteq> NaN \<Longrightarrow> num_le a b \<or> num_le b a"
  by (cases a; cases b) (auto simp: num_le_def num_eq_def)

lemma Math_max_cases:
  "a \<noteq> NaN \<Longrightarrow> b \<noteq> NaN \<Longrightarrow>
   (Math_max a b = a \<or> Math_max a b = b) \<and> num_le a (Math_max a b) \<and> num_le b (Math_max a b)"
  by (cases a; cases b) (auto simp: Math_max_def num_le_def num_eq_def)

section \<open>nextId\<close>

lemma numeric_id_or_0_code: "num_or (Number (field p ''id'')) (Fin 0) = numeric_id_or_0 p"
  by (cases "Number (field p ''id'')") (auto simp: num_or_def numeric_id_or_0_def)

lemma numeric_id_or_0_not_NaN: "numeric_id_or_0 p \<noteq> NaN"
  by (cases "Number (field p ''id'')") (auto simp: numeric_id_or_0_def)

lemma max_id_Nil: "max_id [] m = m"
  by (simp add: max_id_def)

lemma max_id_Cons: "max_id (x # xs) m = max_id xs (Math_max m (numeric_id_or_0 x))"
  by (simp add: max_id_def numeric_id_or_0_code)

lemma max_id_is_max:
  "m \<noteq> NaN \<Longrightarrow>
   max_id items m \<noteq> NaN \<and>
   max_id items m \<in> insert m (numeric_id_or_0 ` set items) \<and>
   num_le m (max_id items m) \<and>
   (\<forall>p \<in> set items. num_le (numeric_id_or_0 p) (max_id items m))"
proof (induction items arbitrary: m)
  case Nil
  then show ?case by (simp add: max_id_Nil num_le_refl)
next
  case (Cons x xs)
  let ?m' = "Math_max m (numeric_id_or_0 x)"
  from Math_max_cases[OF Cons.prems numeric_id_or_0_not_NaN[of x]]
  have c: "?m' = m \<or> ?m' = numeric_id_or_0 x" and le1: "num_le m ?m'"
    and le2: "num_le (numeric_id_or_0 x) ?m'" by auto
  from c Cons.prems numeric_id_or_0_not_NaN[of x] have nn: "?m' \<noteq> NaN" by auto
  from Cons.IH[OF nn] have ih1: "max_id xs ?m' \<noteq> NaN"
    and ih2: "max_id xs ?m' \<in> insert ?m' (numeric_id_or_0 ` set xs)"
    and ih3: "num_le ?m' (max_id xs ?m')"
    and ih4: "\<forall>p \<in> set xs. num_le (numeric_id_or_0 p) (max_id xs ?m')" by auto
  show ?case
    using ih1 ih2 ih3 ih4 c le1 le2
    by (auto simp: max_id_Cons intro: num_le_trans)
qed

lemma num_add_commute: "num_add a b = num_add b a"
  by (cases a; cases b) (simp_all add: add.commute)

lemma nextId_max_id: "nextId items = num_add (Fin 1) (max_id items (Fin 0))"
proof -
  have nn: "max_id items (Fin 0) \<noteq> NaN" using max_id_is_max[of "Fin 0" items] by simp
  have "num_or (max_id items (Fin 0)) (Fin 0) = max_id items (Fin 0)"
    using nn by (cases "max_id items (Fin 0)") (auto simp: num_or_def)
  then show ?thesis
    by (simp add: nextId_def max_id_def[symmetric] num_add_commute)
qed

text \<open>The maximum of a set of numbers is unique, so it depends on the set only.\<close>

lemma max_id_by_set:
  assumes "numeric_id_or_0 ` set xs = numeric_id_or_0 ` set ys"
  shows "max_id xs (Fin 0) = max_id ys (Fin 0)"
proof -
  let ?S = "insert (Fin 0) (numeric_id_or_0 ` set xs)"
  have x: "max_id xs (Fin 0) \<in> ?S" "\<forall>v \<in> ?S. num_le v (max_id xs (Fin 0))"
    using max_id_is_max[of "Fin 0" xs] by auto
  have y: "max_id ys (Fin 0) \<in> ?S" "\<forall>v \<in> ?S. num_le v (max_id ys (Fin 0))"
    using max_id_is_max[of "Fin 0" ys] assms by auto
  from x y show ?thesis by (blast intro: num_le_antisym)
qed

lemma numeric_id_or_0_by_id:
  "field p ''id'' = field p' ''id'' \<Longrightarrow> numeric_id_or_0 p = numeric_id_or_0 p'"
  by (simp add: numeric_id_or_0_def)

lemma nextId_Nil: "nextId [] = Fin 1"
  by code_simp

lemma nextId_1_5_3: "nextId [[(''id'', JNum 1)], [(''id'', JNum 5)], [(''id'', JNum 3)]] = Fin 6"
  by code_simp

lemma nextId_x: "nextId [[(''id'', JStr ''x'')]] = Fin 1"
  by code_simp

lemma numeric_id_or_0_eq:
  "numeric_id_or_0 p = (if Number (field p ''id'') = NaN then Fin 0 else Number (field p ''id''))"
  by (cases "Number (field p ''id'')") (simp_all add: numeric_id_or_0_def)

text \<open>
  With safe ids the largest id is an integer below \<open>2^53\<close>, and adding 1 to it
  is exact.
\<close>

lemma nextId_safe:
  assumes "safe_ids items"
  shows "\<exists>k::int. 0 \<le> k \<and> k < 2 ^ 53 \<and> max_id items (Fin 0) = Fin (of_int k)
           \<and> nextId items = Fin (of_int (1 + k))"
proof -
  let ?m = "max_id items (Fin 0)"
  from max_id_is_max[of "Fin 0" items]
  have mem: "?m \<in> insert (Fin 0) (numeric_id_or_0 ` set items)" and ge0: "num_le (Fin 0) ?m"
    by auto
  have "\<exists>k::int. 0 \<le> k \<and> k < 2 ^ 53 \<and> ?m = Fin (of_int k)"
  proof (cases "?m = Fin 0")
    case True
    then have "0 \<le> (0::int) \<and> (0::int) < 2 ^ 53 \<and> ?m = Fin (of_int 0)" by simp
    then show ?thesis by blast
  next
    case False
    with mem obtain p where p: "p \<in> set items" "?m = numeric_id_or_0 p" by auto
    with False have n: "Number (field p ''id'') = ?m" "Number (field p ''id'') \<noteq> NaN"
      by (auto simp: numeric_id_or_0_eq split: if_splits)
    from assms p(1) have s: "case Number (field p ''id'') of
          Fin r \<Rightarrow> r \<le> 0 \<or> (of_int \<lfloor>r\<rfloor> = r \<and> r < 2 ^ 53)
        | PInf \<Rightarrow> False
        | _ \<Rightarrow> True"
      by (simp add: safe_ids_def)
    from ge0 n(2) s False obtain r where r: "?m = Fin r" "0 < r" "of_int \<lfloor>r\<rfloor> = r" "r < 2 ^ 53"
      unfolding n(1) by (cases ?m) (auto simp: num_le_def num_eq_def)
    from r(2,3) have "0 \<le> \<lfloor>r\<rfloor>" by simp
    moreover have "\<lfloor>r\<rfloor> < 2 ^ 53"
    proof -
      have "(of_int \<lfloor>r\<rfloor> :: rat) < of_int (2 ^ 53)" using r(3,4) by simp
      then show ?thesis by (simp only: of_int_less_iff)
    qed
    moreover have "?m = Fin (of_int \<lfloor>r\<rfloor>)" by (simp only: r(1) r(3))
    ultimately show ?thesis by blast
  qed
  then obtain k :: int where k: "0 \<le> k" "k < 2 ^ 53" "?m = Fin (of_int k)" by blast
  have "round_double (of_int (1 + k)) = Fin (of_int (1 + k))"
    using k(1,2) by (intro round_double_small_int) simp_all
  then have "nextId items = Fin (of_int (1 + k))"
    by (simp add: nextId_max_id k(3))
  with k show ?thesis by blast
qed

text \<open>
  C6 as stated fails: for the single id \<open>2^53\<close> the maximum is \<open>2^53\<close> and
  \<^verbatim>\<open>nextId\<close> returns \<open>2^53\<close> again, not \<open>2^53 + 1\<close>, which is no double.
\<close>

theorem nextId_not_one_plus_max:
  "numeric_id_or_0 [(''id'', JNum 9007199254740992)] = Fin 9007199254740992
   \<and> nextId [[(''id'', JNum 9007199254740992)]] = Fin 9007199254740992
   \<and> nextId [[(''id'', JNum 9007199254740992)]] \<noteq> Fin (1 + 9007199254740992)"
  by code_simp

text \<open>
  C6, amended. \<^verbatim>\<open>nextId(items)\<close> is the double sum of 1 and the maximum \<open>m\<close> of
  0 and the numeric values of the ids of the items, where a missing or
  non-numeric id counts as 0. When every id that reads as a positive number is
  an integer below \<open>2^53\<close>, the maximum is an integer \<open>k\<close> and the result is
  exactly \<open>1 + k\<close>. On the empty list it is 1, on ids 1, 5, 3 it is 6, on the
  single id \<^verbatim>\<open>"x"\<close> it is 1. Two collections with the same set of ids get the
  same result.
\<close>

theorem nextId_one_plus_max:
  "(\<exists>m. nextId items = num_add (Fin 1) m
        \<and> m \<in> insert (Fin 0) (numeric_id_or_0 ` set items)
        \<and> (\<forall>v \<in> insert (Fin 0) (numeric_id_or_0 ` set items). num_le v m))
   \<and> (safe_ids items \<longrightarrow>
        (\<exists>k::int. 0 \<le> k \<and> k < 2 ^ 53
           \<and> Fin (of_int k) \<in> insert (Fin 0) (numeric_id_or_0 ` set items)
           \<and> (\<forall>v \<in> insert (Fin 0) (numeric_id_or_0 ` set items). num_le v (Fin (of_int k)))
           \<and> nextId items = Fin (of_int (1 + k))))
   \<and> nextId [] = Fin 1
   \<and> nextId [[(''id'', JNum 1)], [(''id'', JNum 5)], [(''id'', JNum 3)]] = Fin 6
   \<and> nextId [[(''id'', JStr ''x'')]] = Fin 1
   \<and> (\<forall>items'. (\<lambda>p. field p ''id'') ` set items' = (\<lambda>p. field p ''id'') ` set items
          \<longrightarrow> nextId items' = nextId items)"
proof -
  have a: "\<exists>m. nextId items = num_add (Fin 1) m
        \<and> m \<in> insert (Fin 0) (numeric_id_or_0 ` set items)
        \<and> (\<forall>v \<in> insert (Fin 0) (numeric_id_or_0 ` set items). num_le v m)"
    using max_id_is_max[of "Fin 0" items] nextId_max_id[of items] by auto
  have s: "safe_ids items \<longrightarrow>
        (\<exists>k::int. 0 \<le> k \<and> k < 2 ^ 53
           \<and> Fin (of_int k) \<in> insert (Fin 0) (numeric_id_or_0 ` set items)
           \<and> (\<forall>v \<in> insert (Fin 0) (numeric_id_or_0 ` set items). num_le v (Fin (of_int k)))
           \<and> nextId items = Fin (of_int (1 + k)))"
  proof
    assume "safe_ids items"
    from nextId_safe[OF this] obtain k :: int where k: "0 \<le> k" "k < 2 ^ 53"
      "max_id items (Fin 0) = Fin (of_int k)" "nextId items = Fin (of_int (1 + k))" by blast
    from max_id_is_max[of "Fin 0" items] k(3)
    have "Fin (of_int k) \<in> insert (Fin 0) (numeric_id_or_0 ` set items)"
      "\<forall>v \<in> insert (Fin 0) (numeric_id_or_0 ` set items). num_le v (Fin (of_int k))"
      by auto
    with k show "\<exists>k::int. 0 \<le> k \<and> k < 2 ^ 53
           \<and> Fin (of_int k) \<in> insert (Fin 0) (numeric_id_or_0 ` set items)
           \<and> (\<forall>v \<in> insert (Fin 0) (numeric_id_or_0 ` set items). num_le v (Fin (of_int k)))
           \<and> nextId items = Fin (of_int (1 + k))" by blast
  qed
  have b: "nextId items' = nextId items"
    if h: "(\<lambda>p. field p ''id'') ` set items' = (\<lambda>p. field p ''id'') ` set items" for items'
  proof -
    have "numeric_id_or_0 ` set items' = numeric_id_or_0 ` set items"
    proof -
      have "numeric_id_or_0 ` set xs \<subseteq> numeric_id_or_0 ` set ys"
        if "(\<lambda>p. field p ''id'') ` set xs = (\<lambda>p. field p ''id'') ` set ys" for xs ys
      proof
        fix v assume "v \<in> numeric_id_or_0 ` set xs"
        then obtain p where p: "p \<in> set xs" "v = numeric_id_or_0 p" by auto
        then have "field p ''id'' \<in> (\<lambda>p. field p ''id'') ` set ys" using that by blast
        then obtain p' where "p' \<in> set ys" "field p ''id'' = field p' ''id''" by auto
        then show "v \<in> numeric_id_or_0 ` set ys"
          using p numeric_id_or_0_by_id by blast
      qed
      from this[of items' items] this[of items items'] h show ?thesis by auto
    qed
    then have "max_id items' (Fin 0) = max_id items (Fin 0)" by (rule max_id_by_set)
    then show ?thesis by (simp add: nextId_max_id)
  qed
  from b have b': "\<forall>items'. (\<lambda>p. field p ''id'') ` set items' = (\<lambda>p. field p ''id'') ` set items
          \<longrightarrow> nextId items' = nextId items" by blast
  show ?thesis
    by (intro conjI a s b' nextId_Nil nextId_1_5_3 nextId_x)
qed

lemma example_ids:
  "numeric_id_or_0 [(''id'', JNum 2)] = Fin 2"
  "numeric_id_or_0 [(''id'', JStr ''7'')] = Fin 7"
  "numeric_id_or_0 [(''title'', JStr ''a'')] = Fin 0"
  by code_simp+

lemma example_ids_safe:
  "safe_ids [[(''id'', JNum 2)], [(''id'', JStr ''7'')], [(''title'', JStr ''a'')]]"
  unfolding safe_ids_def by code_simp

theorem nextId_one_plus_max_witness:
  "nextId [[(''id'', JNum 2)], [(''id'', JStr ''7'')], [(''title'', JStr ''a'')]] = Fin 8
   \<and> nextId [[(''id'', JStr ''7'')], [(''id'', JNum 2)], [(''id'', JNum 2)], []] = Fin 8"
proof -
  let ?xs = "[[(''id'', JNum 2)], [(''id'', JStr ''7'')], [(''title'', JStr ''a'')]]"
  let ?ys = "[[(''id'', JStr ''7'')], [(''id'', JNum 2)], [(''id'', JNum 2)], []]"
  note v = example_ids
  have same: "(\<lambda>p. field p ''id'') ` set ?ys = (\<lambda>p. field p ''id'') ` set ?xs"
    by (simp add: field_def insert_commute)
  from nextId_one_plus_max[of ?xs] example_ids_safe
  obtain k :: int where k: "Fin (of_int k) \<in> insert (Fin 0) (numeric_id_or_0 ` set ?xs)"
      "\<forall>v \<in> insert (Fin 0) (numeric_id_or_0 ` set ?xs). num_le v (Fin (of_int k))"
      "nextId ?xs = Fin (of_int (1 + k))"
    and pure: "\<forall>items'. (\<lambda>p. field p ''id'') ` set items' = (\<lambda>p. field p ''id'') ` set ?xs
          \<longrightarrow> nextId items' = nextId ?xs"
    by blast
  from k(2) have "num_le (Fin 7) (Fin (of_int k))" by (simp add: v)
  then have "(7::rat) \<le> of_int k" by (auto simp: num_le_def num_eq_def)
  moreover from k(1) have "(of_int k :: rat) = 0 \<or> (of_int k :: rat) = 2 \<or> (of_int k :: rat) = 7"
    by (auto simp add: v)
  ultimately have "(of_int k :: rat) = 7" by auto
  with k(3) have x: "nextId ?xs = Fin 8" by simp
  from pure same have "nextId ?ys = nextId ?xs" by blast
  with x show ?thesis by simp
qed

section \<open>The seed block\<close>

lemma seed_fields:
  "map (\<lambda>p. (field p ''id'', field p ''title'', field p ''price'')) (seed t1 t2) =
     [(Some (JNum 1), Some (JStr ''iPhone 13 Pro''), Some (JNum 799)),
      (Some (JNum 2), Some (JStr ''Gaming Chair''), Some (JNum (14999 / 100)))]"
  by (simp add: seed_def field_def)

lemma bootstrap_seeds_when:
  assumes "\<not> (\<exists>x xs. map_of (case data of None \<Rightarrow> [(''products'', JArr [])] | Some d \<Rightarrow> d) ''products''
                 = Some (JArr (x # xs)))"
  shows "bootstrap t1 t2 data =
    (AList.update ''products'' (JArr (map JObj (seed t1 t2)))
       (case data of None \<Rightarrow> [(''products'', JArr [])] | Some d \<Rightarrow> d), True)"
  using assms
  by (auto simp: bootstrap_def Let_def split: option.splits json.splits list.splits)

text \<open>
  C9. When the document read at start-up is absent, or has no \<^verbatim>\<open>products\<close>, or
  an empty \<^verbatim>\<open>products\<close> array, the seed block stores exactly two products and
  writes the file: ids 1 and 2, titled "iPhone 13 Pro" at price 799 and
  "Gaming Chair" at price 149.99. A document with a non-empty \<^verbatim>\<open>products\<close>
  array is left as it is and not written.
\<close>

theorem bootstrap_seeds_two_products:
  "((data = None \<or> (\<exists>d. data = Some d \<and> (map_of d ''products'' = None \<or> map_of d ''products'' = Some (JArr []))))
      \<longrightarrow> (\<exists>doc. bootstrap t1 t2 data = (doc, True)
             \<and> map_of doc ''products'' = Some (JArr (map JObj (seed t1 t2)))
             \<and> length (seed t1 t2) = 2
             \<and> map (\<lambda>p. (field p ''id'', field p ''title'', field p ''price'')) (seed t1 t2) =
                 [(Some (JNum 1), Some (JStr ''iPhone 13 Pro''), Some (JNum 799)),
                  (Some (JNum 2), Some (JStr ''Gaming Chair''), Some (JNum (14999 / 100)))]))
   \<and> (\<forall>d x xs. data = Some d \<and> map_of d ''products'' = Some (JArr (x # xs))
         \<longrightarrow> bootstrap t1 t2 data = (d, False))"
proof (intro conjI impI allI)
  assume a: "data = None \<or> (\<exists>d. data = Some d \<and> (map_of d ''products'' = None \<or> map_of d ''products'' = Some (JArr [])))"
  let ?doc = "case data of None \<Rightarrow> [(''products'', JArr [])] | Some d \<Rightarrow> d"
  from a have "\<not> (\<exists>x xs. map_of ?doc ''products'' = Some (JArr (x # xs)))" by auto
  then have b: "bootstrap t1 t2 data =
      (AList.update ''products'' (JArr (map JObj (seed t1 t2))) ?doc, True)"
    by (rule bootstrap_seeds_when)
  have l: "length (seed t1 t2) = 2" by (simp add: seed_def)
  show "\<exists>doc. bootstrap t1 t2 data = (doc, True)
             \<and> map_of doc ''products'' = Some (JArr (map JObj (seed t1 t2)))
             \<and> length (seed t1 t2) = 2
             \<and> map (\<lambda>p. (field p ''id'', field p ''title'', field p ''price'')) (seed t1 t2) =
                 [(Some (JNum 1), Some (JStr ''iPhone 13 Pro''), Some (JNum 799)),
                  (Some (JNum 2), Some (JStr ''Gaming Chair''), Some (JNum (14999 / 100)))]"
    using b l seed_fields[of t1 t2] by (simp add: update_conv')
next
  fix d x xs
  assume "data = Some d \<and> map_of d ''products'' = Some (JArr (x # xs))"
  then show "bootstrap t1 t2 data = (d, False)"
    by (simp add: bootstrap_def)
qed

theorem bootstrap_seeds_two_products_witness:
  "(\<exists>doc. bootstrap 10 11 None = (doc, True)
       \<and> map_of doc ''products'' = Some (JArr (map JObj (seed 10 11))))
   \<and> (\<exists>doc. bootstrap 10 11 (Some [(''products'', JArr [])]) = (doc, True)
       \<and> map_of doc ''products'' = Some (JArr (map JObj (seed 10 11))))
   \<and> bootstrap 10 11 (Some [(''products'', JArr [JObj [(''id'', JNum 7)]])])
       = ([(''products'', JArr [JObj [(''id'', JNum 7)]])], False)"
proof -
  have 1: "\<exists>doc. bootstrap 10 11 None = (doc, True)
       \<and> map_of doc ''products'' = Some (JArr (map JObj (seed 10 11)))"
    using bootstrap_seeds_two_products[of None 10 11] by blast
  have 2: "\<exists>doc. bootstrap 10 11 (Some [(''products'', JArr [])]) = (doc, True)
       \<and> map_of doc ''products'' = Some (JArr (map JObj (seed 10 11)))"
    using bootstrap_seeds_two_products[of "Some [(''products'', JArr [])]" 10 11] by auto
  have 3: "bootstrap 10 11 (Some [(''products'', JArr [JObj [(''id'', JNum 7)]])])
       = ([(''products'', JArr [JObj [(''id'', JNum 7)]])], False)"
    using bootstrap_seeds_two_products[of "Some [(''products'', JArr [JObj [(''id'', JNum 7)]])]" 10 11]
    by simp
  from 1 2 3 show ?thesis by blast
qed

section \<open>Locating a product by its id\<close>

lemma length_filter_eq_iff: "(length (filter P xs) = length xs) = (\<forall>x \<in> set xs. P x)"
proof (induction xs)
  case Nil
  then show ?case by simp
next
  case (Cons x xs)
  have "length (filter P xs) \<le> length xs" by simp
  then have "length (filter P xs) \<noteq> Suc (length xs)" by arith
  with Cons show ?case by auto
qed

lemma findIndex_None: "(findIndex f xs = None) = (\<forall>x \<in> set xs. \<not> f x)"
  by (induction xs) (auto split: option.splits)

lemma findIndex_Some:
  "findIndex f xs = Some i \<Longrightarrow> i < length xs \<and> f (xs ! i) \<and> (\<forall>j < i. \<not> f (xs ! j))"
proof (induction xs arbitrary: i)
  case Nil
  then show ?case by simp
next
  case (Cons x xs)
  show ?case
  proof (cases "f x")
    case True
    with Cons.prems show ?thesis by simp
  next
    case False
    with Cons.prems obtain i' where i': "findIndex f xs = Some i'" "i = Suc i'"
      by (auto split: option.splits)
    from Cons.IH[OF i'(1)] False i'(2) show ?thesis
      by (auto simp: nth_Cons split: nat.splits)
  qed
qed

lemma delete_product_alt:
  "delete_product db pid =
     (if \<forall>p \<in> set db. \<not> id_matches pid p
      then (Response 404 (Some (error_body ''Not found'')), db)
      else (Response 204 None, filter (\<lambda>p. \<not> id_matches pid p) db))"
  by (simp add: delete_product_def Let_def id_matches_def[symmetric] length_filter_eq_iff)

lemma put_product_not_found:
  "\<forall>p \<in> set db. \<not> id_matches pid p \<Longrightarrow>
   put_product db pid b = (Response 404 (Some (error_body ''Not found'')), db)"
proof -
  assume "\<forall>p \<in> set db. \<not> id_matches pid p"
  then have "findIndex (id_matches pid) db = None" by (simp add: findIndex_None)
  then have "findIndex (\<lambda>p. num_eq (Number (field p ''id'')) (Number (Some (JStr pid)))) db = None"
    by (simp add: id_matches_def[abs_def])
  then show ?thesis by (simp add: put_product_def Let_def)
qed

lemma put_product_found:
  assumes "\<exists>p \<in> set db. id_matches pid p"
  shows "\<exists>idx. idx < length db \<and> id_matches pid (db ! idx) \<and> (\<forall>j < idx. \<not> id_matches pid (db ! j))
           \<and> put_product db pid b =
               (Response 200 (Some (JObj (merged (db ! idx) b))), db[idx := merged (db ! idx) b])"
proof -
  from assms have "findIndex (id_matches pid) db \<noteq> None" by (simp add: findIndex_None)
  then obtain idx where i: "findIndex (id_matches pid) db = Some idx" by auto
  then have "findIndex (\<lambda>p. num_eq (Number (field p ''id'')) (Number (Some (JStr pid)))) db = Some idx"
    by (simp add: id_matches_def[abs_def])
  then have "put_product db pid b =
      (Response 200 (Some (JObj (merged (db ! idx) b))), db[idx := merged (db ! idx) b])"
    by (simp add: put_product_def Let_def)
  with findIndex_Some[OF i] show ?thesis by blast
qed

lemma id_matches_not_NaN: "id_matches pid p \<Longrightarrow> Number (field p ''id'') \<noteq> NaN"
  by (auto simp: id_matches_def num_eq_def)

lemma id_matches_has_id: "id_matches pid p \<Longrightarrow> \<exists>i. field p ''id'' = Some i"
  by (cases "field p ''id''") (auto simp: id_matches_def num_eq_def Number_def)

section \<open>DELETE\<close>

lemma ids_unique_one_match:
  "ids_unique db \<Longrightarrow> \<exists>p \<in> set db. id_matches pid p \<Longrightarrow>
   \<exists>i < length db. id_matches pid (db ! i)
      \<and> filter (\<lambda>p. \<not> id_matches pid p) db = take i db @ drop (Suc i) db"
proof (induction db)
  case Nil
  then show ?case by simp
next
  case (Cons x xs)
  show ?case
  proof (cases "id_matches pid x")
    case True
    have "\<forall>q \<in> set xs. \<not> id_matches pid q"
    proof
      fix q assume q: "q \<in> set xs"
      with Cons.prems(1) have "\<not> num_eq (Number (field x ''id'')) (Number (field q ''id''))" by simp
      with True show "\<not> id_matches pid q" by (auto simp: id_matches_def num_eq_def)
    qed
    then have "filter (\<lambda>p. \<not> id_matches pid p) xs = xs" by (simp add: filter_id_conv)
    with True have "id_matches pid ((x # xs) ! 0)
      \<and> filter (\<lambda>p. \<not> id_matches pid p) (x # xs) = take 0 (x # xs) @ drop (Suc 0) (x # xs)"
      by simp
    then show ?thesis by blast
  next
    case False
    with Cons.prems have "ids_unique xs" "\<exists>p \<in> set xs. id_matches pid p" by auto
    from Cons.IH[OF this] obtain i where i: "i < length xs" "id_matches pid (xs ! i)"
      "filter (\<lambda>p. \<not> id_matches pid p) xs = take i xs @ drop (Suc i) xs" by blast
    with False have "Suc i < length (x # xs) \<and> id_matches pid ((x # xs) ! Suc i)
      \<and> filter (\<lambda>p. \<not> id_matches pid p) (x # xs) = take (Suc i) (x # xs) @ drop (Suc (Suc i)) (x # xs)"
      by simp
    then show ?thesis by blast
  qed
qed

text \<open>
  C3. DELETE with path parameter \<open>pid\<close>: when no stored product has that id
  the response is 404 \<^verbatim>\<open>{error: "Not found"}\<close> and the file is unchanged. When one
  has, the response is 204 with no body and the file holds the products that
  do not have that id; a second DELETE of the same id is then answered 404 and
  changes nothing. When the ids of the collection are unique, exactly one
  record, at some position \<open>i\<close>, has the id, and the file after is the
  collection without position \<open>i\<close>.
\<close>

theorem delete_product_removes_the_record:
  "((\<forall>p \<in> set db. \<not> id_matches pid p) \<longrightarrow>
      delete_product db pid = (Response 404 (Some (error_body ''Not found'')), db))
   \<and> ((\<exists>p \<in> set db. id_matches pid p) \<longrightarrow>
        delete_product db pid = (Response 204 None, filter (\<lambda>p. \<not> id_matches pid p) db)
        \<and> delete_product (snd (delete_product db pid)) pid =
            (Response 404 (Some (error_body ''Not found'')), snd (delete_product db pid)))
   \<and> (ids_unique db \<and> (\<exists>p \<in> set db. id_matches pid p) \<longrightarrow>
        (\<exists>i < length db. id_matches pid (db ! i)
           \<and> snd (delete_product db pid) = take i db @ drop (Suc i) db
           \<and> Suc (length (snd (delete_product db pid))) = length db))"
proof (intro conjI impI)
  assume "\<forall>p \<in> set db. \<not> id_matches pid p"
  then show "delete_product db pid = (Response 404 (Some (error_body ''Not found'')), db)"
    by (simp add: delete_product_alt)
next
  assume a: "\<exists>p \<in> set db. id_matches pid p"
  then show "delete_product db pid = (Response 204 None, filter (\<lambda>p. \<not> id_matches pid p) db)"
    by (simp add: delete_product_alt)
  then show "delete_product (snd (delete_product db pid)) pid =
            (Response 404 (Some (error_body ''Not found'')), snd (delete_product db pid))"
    by (simp add: delete_product_alt[of "filter (\<lambda>p. \<not> id_matches pid p) db"])
next
  assume a: "ids_unique db \<and> (\<exists>p \<in> set db. id_matches pid p)"
  then have d: "snd (delete_product db pid) = filter (\<lambda>p. \<not> id_matches pid p) db"
    by (simp add: delete_product_alt)
  from a ids_unique_one_match[of db pid]
  obtain i where i: "i < length db" "id_matches pid (db ! i)"
    "filter (\<lambda>p. \<not> id_matches pid p) db = take i db @ drop (Suc i) db" by blast
  from i(1) have "Suc (length (take i db @ drop (Suc i) db)) = length db" by simp
  with i d show "\<exists>i < length db. id_matches pid (db ! i)
           \<and> snd (delete_product db pid) = take i db @ drop (Suc i) db
           \<and> Suc (length (snd (delete_product db pid))) = length db"
    by auto
qed

lemma id_matches_2_seed: "id_matches ''2'' (seed 5 6 ! 1)"
  by code_simp

lemma id_matches_2_seed_first: "\<not> id_matches ''2'' (seed 5 6 ! 0)"
  by code_simp

lemma id_matches_9_seed: "\<not> id_matches ''9'' (seed 5 6 ! 0) \<and> \<not> id_matches ''9'' (seed 5 6 ! 1)"
  by code_simp

lemma ids_unique_seed: "ids_unique (seed 5 6)"
  by code_simp

lemma id_matches_nbsp_3: "id_matches [CHR 0xC2, CHR 0xA0, CHR ''3''] [(''id'', JNum 3)]"
  by code_simp

lemma id_matches_rounded_1: "id_matches ''1.00000000000000001'' [(''id'', JNum 1)]"
  by code_simp

lemma seed_nth: "seed t1 t2 = [seed t1 t2 ! 0, seed t1 t2 ! 1]"
  by (simp add: seed_def)

theorem delete_product_removes_the_record_witness:
  "delete_product (seed 5 6) ''9'' = (Response 404 (Some (error_body ''Not found'')), seed 5 6)
   \<and> delete_product (seed 5 6) ''2'' = (Response 204 None, [seed 5 6 ! 0])
   \<and> delete_product [seed 5 6 ! 0] ''2'' = (Response 404 (Some (error_body ''Not found'')), [seed 5 6 ! 0])
   \<and> Suc (length (snd (delete_product (seed 5 6) ''2''))) = length (seed 5 6)
   \<and> delete_product [[(''id'', JNum 3)]] [CHR 0xC2, CHR 0xA0, CHR ''3''] = (Response 204 None, [])
   \<and> delete_product [[(''id'', JNum 1)]] ''1.00000000000000001'' = (Response 204 None, [])"
proof -
  have none: "\<forall>p \<in> set (seed 5 6). \<not> id_matches ''9'' p"
    using id_matches_9_seed by (subst seed_nth) simp
  have some: "\<exists>p \<in> set (seed 5 6). id_matches ''2'' p"
    using id_matches_2_seed by (subst seed_nth) simp
  have f: "filter (\<lambda>p. \<not> id_matches ''2'' p) (seed 5 6) = [seed 5 6 ! 0]"
    using id_matches_2_seed id_matches_2_seed_first by (subst seed_nth) simp
  note t1 = delete_product_removes_the_record[of "seed 5 6" "''9''"]
  note t2 = delete_product_removes_the_record[of "seed 5 6" "''2''"]
  from t1 none have 1: "delete_product (seed 5 6) ''9'' =
      (Response 404 (Some (error_body ''Not found'')), seed 5 6)" by blast
  from t2 some have 2: "delete_product (seed 5 6) ''2'' =
      (Response 204 None, filter (\<lambda>p. \<not> id_matches ''2'' p) (seed 5 6))"
    and 3: "delete_product (snd (delete_product (seed 5 6) ''2'')) ''2'' =
      (Response 404 (Some (error_body ''Not found'')), snd (delete_product (seed 5 6) ''2''))"
    by blast+
  from t2 some ids_unique_seed
  have 4: "Suc (length (snd (delete_product (seed 5 6) ''2''))) = length (seed 5 6)" by blast
  from delete_product_removes_the_record[of "[[(''id'', JNum 3)]]" "[CHR 0xC2, CHR 0xA0, CHR ''3'']"]
    id_matches_nbsp_3
  have 5: "delete_product [[(''id'', JNum 3)]] [CHR 0xC2, CHR 0xA0, CHR ''3''] = (Response 204 None, [])"
    by simp
  from delete_product_removes_the_record[of "[[(''id'', JNum 1)]]" "''1.00000000000000001''"]
    id_matches_rounded_1
  have 6: "delete_product [[(''id'', JNum 1)]] ''1.00000000000000001'' = (Response 204 None, [])"
    by simp
  from 1 2 3 4 f have "delete_product (seed 5 6) ''9'' = (Response 404 (Some (error_body ''Not found'')), seed 5 6)
   \<and> delete_product (seed 5 6) ''2'' = (Response 204 None, [seed 5 6 ! 0])
   \<and> delete_product [seed 5 6 ! 0] ''2'' = (Response 404 (Some (error_body ''Not found'')), [seed 5 6 ! 0])
   \<and> Suc (length (snd (delete_product (seed 5 6) ''2''))) = length (seed 5 6)" by simp
  with 5 6 show ?thesis by blast
qed

section \<open>PUT\<close>

lemma index_key_not_Nil: "index_key n \<noteq> []"
  by (subst index_key.simps) simp

lemma index_key_inj: "index_key n = index_key m \<Longrightarrow> n = m"
proof (induction n arbitrary: m rule: index_key.induct)
  case (1 n)
  show ?case
  proof (cases "n < 10")
    case n: True
    show ?thesis
    proof (cases "m < 10")
      case True
      from "1.prems" n True have "char_of (48 + n) = char_of (48 + m)"
        by (subst (asm) index_key.simps, subst (asm) (2) index_key.simps) simp
      with n True show ?thesis by simp
    next
      case False
      from "1.prems" n False have "[char_of (48 + n)] = index_key (m div 10) @ [char_of (48 + m mod 10)]"
        by (subst (asm) index_key.simps, subst (asm) (2) index_key.simps) simp
      with index_key_not_Nil[of "m div 10"] show ?thesis by simp
    qed
  next
    case n: False
    show ?thesis
    proof (cases "m < 10")
      case True
      from "1.prems" n True have "index_key (n div 10) @ [char_of (48 + n mod 10)] = [char_of (48 + m)]"
        by (subst (asm) index_key.simps, subst (asm) (2) index_key.simps) simp
      with index_key_not_Nil[of "n div 10"] show ?thesis by simp
    next
      case False
      from "1.prems" n False
      have "index_key (n div 10) @ [char_of (48 + n mod 10)]
          = index_key (m div 10) @ [char_of (48 + m mod 10)]"
        by (subst (asm) index_key.simps, subst (asm) (2) index_key.simps) simp
      then have a: "index_key (n div 10) = index_key (m div 10)"
        and b: "char_of (48 + n mod 10) = char_of (48 + m mod 10)" by simp_all
      from "1.IH"[OF n a] have d: "n div 10 = m div 10" .
      have "n mod 10 < 10" "m mod 10 < 10" by simp_all
      with b have "n mod 10 = m mod 10" by simp
      with d show ?thesis by (metis div_mult_mod_eq)
    qed
  qed
qed

lemma distinct_index_keys: "distinct (map index_key [0..<n])"
  by (simp add: distinct_map inj_on_def index_key_inj)

lemma distinct_own_props: "distinct (map fst (own_props b))"
  by (cases b) (simp_all add: distinct_index_keys)

lemma map_of_fold_update:
  "distinct (map fst ps) \<Longrightarrow>
   map_of (fold (\<lambda>(k, v). AList.update k v) ps al) k =
     (case map_of ps k of Some v \<Rightarrow> Some v | None \<Rightarrow> map_of al k)"
proof (induction ps arbitrary: al)
  case Nil
  then show ?case by simp
next
  case (Cons p ps)
  obtain k' v' where p: "p = (k', v')" by (cases p)
  from Cons.prems p have n: "map_of ps k' = None" and d: "distinct (map fst ps)"
    by (auto simp: map_of_eq_None_iff)
  show ?case
    using Cons.IH[OF d, of "AList.update k' v' al"] n p
    by (auto simp: update_conv' split: option.splits)
qed

lemma field_merged:
  "id_matches pid prev \<Longrightarrow>
   field (merged prev b) k =
     (if k = ''id'' then field prev ''id''
      else (case map_of (own_props b) k of Some v \<Rightarrow> Some v | None \<Rightarrow> field prev k))"
proof -
  assume "id_matches pid prev"
  then obtain i where i: "field prev ''id'' = Some i" using id_matches_has_id by blast
  then show ?thesis
    by (simp add: merged_def Let_def field_def update_conv' map_of_fold_update[OF distinct_own_props]
          split: option.splits)
qed


lemma put_seed_price_500:
  "put_product (seed 5 6) ''2'' (JObj [(''price'', JNum 500), (''id'', JNum 9)]) =
     (Response 200 (Some (JObj ((seed 5 6 ! 1)[3 := (''price'', JNum 500)]))),
      [seed 5 6 ! 0, (seed 5 6 ! 1)[3 := (''price'', JNum 500)]])"
  by code_simp


section \<open>Ids are compared as numbers\<close>

lemma NaN_matches_nothing: "Number (Some (JStr pid)) = NaN \<Longrightarrow> \<not> id_matches pid p"
  by (simp add: id_matches_def num_eq_def)

lemma put_product_status:
  "status (fst (put_product db pid b)) = (if \<exists>p \<in> set db. id_matches pid p then 200 else 404)"
proof (cases "\<exists>p \<in> set db. id_matches pid p")
  case True
  from put_product_found[OF True, of b] show ?thesis using True by auto
next
  case False
  then have "\<forall>p \<in> set db. \<not> id_matches pid p" by simp
  from put_product_not_found[OF this, of b] False show ?thesis by simp
qed

lemma delete_product_status:
  "status (fst (delete_product db pid)) = (if \<exists>p \<in> set db. id_matches pid p then 204 else 404)"
  by (simp add: delete_product_alt)

lemma Number_3: "Number (Some (JStr ''3'')) = Fin 3"
  by code_simp

lemma Number_abc: "Number (Some (JStr ''abc'')) = NaN"
  by code_simp

text \<open>
  C10. PUT and DELETE find their product by comparing \<^verbatim>\<open>Number(p.id)\<close> with
  \<^verbatim>\<open>Number(req.params.id)\<close>: the answer is 200 (PUT) or 204 (DELETE) exactly when
  some stored product passes that comparison, and 404 otherwise. A path
  parameter that reads as NaN matches no product, so both answer 404
  \<^verbatim>\<open>{error: "Not found"}\<close> and leave the file unchanged. A product whose stored
  id is a string that reads as the same number as the path parameter is
  matched: PUT answers 200, DELETE answers 204 and removes it. The string
  \<^verbatim>\<open>"3"\<close> reads as 3 and \<^verbatim>\<open>"abc"\<close> as NaN.
\<close>

theorem ids_compared_as_numbers:
  "(Number (Some (JStr pid)) = NaN \<longrightarrow>
      put_product db pid b = (Response 404 (Some (error_body ''Not found'')), db)
      \<and> delete_product db pid = (Response 404 (Some (error_body ''Not found'')), db))
   \<and> (status (fst (put_product db pid b)) =
        (if \<exists>p \<in> set db. num_eq (Number (field p ''id'')) (Number (Some (JStr pid))) then 200 else 404))
   \<and> (status (fst (delete_product db pid)) =
        (if \<exists>p \<in> set db. num_eq (Number (field p ''id'')) (Number (Some (JStr pid))) then 204 else 404))
   \<and> (\<forall>p \<in> set db. \<forall>s. field p ''id'' = Some (JStr s)
          \<and> num_eq (StringToNumber s) (Number (Some (JStr pid)))
        \<longrightarrow> status (fst (put_product db pid b)) = 200
            \<and> status (fst (delete_product db pid)) = 204
            \<and> p \<notin> set (snd (delete_product db pid)))
   \<and> Number (Some (JStr ''3'')) = Fin 3
   \<and> Number (Some (JStr ''abc'')) = NaN"
proof (intro conjI impI ballI allI)
  assume n: "Number (Some (JStr pid)) = NaN"
  then have none: "\<forall>p \<in> set db. \<not> id_matches pid p" by (simp add: NaN_matches_nothing)
  then show "put_product db pid b = (Response 404 (Some (error_body ''Not found'')), db)"
    by (rule put_product_not_found)
  from none show "delete_product db pid = (Response 404 (Some (error_body ''Not found'')), db)"
    by (simp add: delete_product_alt)
next
  show "status (fst (put_product db pid b)) =
        (if \<exists>p \<in> set db. num_eq (Number (field p ''id'')) (Number (Some (JStr pid))) then 200 else 404)"
    using put_product_status[of db pid b] by (simp add: id_matches_def)
next
  show "status (fst (delete_product db pid)) =
        (if \<exists>p \<in> set db. num_eq (Number (field p ''id'')) (Number (Some (JStr pid))) then 204 else 404)"
    using delete_product_status[of db pid] by (simp add: id_matches_def)
next
  fix p s
  assume p: "p \<in> set db"
    and s: "field p ''id'' = Some (JStr s) \<and> num_eq (StringToNumber s) (Number (Some (JStr pid)))"
  then have m: "id_matches pid p" by (simp add: id_matches_def Number_def)
  with p have ex: "\<exists>p \<in> set db. id_matches pid p" by blast
  then show "status (fst (put_product db pid b)) = 200" by (simp add: put_product_status)
  from ex show "status (fst (delete_product db pid)) = 204" by (simp add: delete_product_status)
  from ex m show "p \<notin> set (snd (delete_product db pid))" by (auto simp: delete_product_alt)
next
  show "Number (Some (JStr ''3'')) = Fin 3" by (rule Number_3)
  show "Number (Some (JStr ''abc'')) = NaN" by (rule Number_abc)
qed

lemma Number_3_padded: "Number (Some (JStr '' 3.0 '')) = Fin 3"
  by code_simp

theorem ids_compared_as_numbers_witness:
  "put_product [[(''id'', JStr ''3'')]] ''abc'' (JObj []) =
      (Response 404 (Some (error_body ''Not found'')), [[(''id'', JStr ''3'')]])
   \<and> delete_product [[(''id'', JStr ''3'')]] ''abc'' =
      (Response 404 (Some (error_body ''Not found'')), [[(''id'', JStr ''3'')]])
   \<and> status (fst (put_product [[(''id'', JStr ''3'')]] '' 3.0 '' (JObj []))) = 200
   \<and> status (fst (delete_product [[(''id'', JStr ''3'')]] '' 3.0 '')) = 204
   \<and> snd (delete_product [[(''id'', JStr ''3'')]] '' 3.0 '') = []
   \<and> status (fst (put_product [[(''id'', JNum 3)]] [CHR 0xC2, CHR 0xA0, CHR ''3''] (JObj []))) = 200
   \<and> status (fst (delete_product [[(''id'', JNum 1)]] ''1.00000000000000001'')) = 204"
proof -
  let ?db = "[[(''id'', JStr ''3'')]]"
  note t1 = ids_compared_as_numbers[of "''abc''" ?db "JObj []"]
  note t2 = ids_compared_as_numbers[of "'' 3.0 ''" ?db "JObj []"]
  from t1 Number_abc have 1: "put_product ?db ''abc'' (JObj []) =
      (Response 404 (Some (error_body ''Not found'')), ?db)"
    and 2: "delete_product ?db ''abc'' = (Response 404 (Some (error_body ''Not found'')), ?db)"
    by blast+
  have f: "field [(''id'', JStr ''3'')] ''id'' = Some (JStr ''3'')" by (simp add: field_def)
  have e: "num_eq (StringToNumber ''3'') (Number (Some (JStr '' 3.0 '')))"
    using Number_3 Number_3_padded by (simp add: Number_def num_eq_def)
  from t2 have "\<forall>p \<in> set ?db. \<forall>s. field p ''id'' = Some (JStr s)
          \<and> num_eq (StringToNumber s) (Number (Some (JStr '' 3.0 '')))
        \<longrightarrow> status (fst (put_product ?db '' 3.0 '' (JObj []))) = 200
            \<and> status (fst (delete_product ?db '' 3.0 '')) = 204
            \<and> p \<notin> set (snd (delete_product ?db '' 3.0 ''))" by blast
  with f e have 3: "status (fst (put_product ?db '' 3.0 '' (JObj []))) = 200"
    and 4: "status (fst (delete_product ?db '' 3.0 '')) = 204"
    and 5: "[(''id'', JStr ''3'')] \<notin> set (snd (delete_product ?db '' 3.0 ''))"
    by auto
  have "set (snd (delete_product ?db '' 3.0 '')) \<subseteq> set ?db"
    by (auto simp: delete_product_alt)
  with 5 have 6: "snd (delete_product ?db '' 3.0 '') = []"
    by (cases "snd (delete_product ?db '' 3.0 '')") auto
  from ids_compared_as_numbers[of "[CHR 0xC2, CHR 0xA0, CHR ''3'']" "[[(''id'', JNum 3)]]" "JObj []"]
    id_matches_nbsp_3
  have 7: "status (fst (put_product [[(''id'', JNum 3)]] [CHR 0xC2, CHR 0xA0, CHR ''3''] (JObj []))) = 200"
    by (simp add: id_matches_def)
  from ids_compared_as_numbers[of "''1.00000000000000001''" "[[(''id'', JNum 1)]]" "JObj []"]
    id_matches_rounded_1
  have 8: "status (fst (delete_product [[(''id'', JNum 1)]] ''1.00000000000000001'')) = 204"
    by (simp add: id_matches_def)
  from 1 2 3 4 6 7 8 show ?thesis by blast
qed

section \<open>POST\<close>

text \<open>
  With safe ids, \<^verbatim>\<open>nextId\<close> is an integer from 1 to \<open>2^53\<close>, above every id
  that reads as a number, and the id written for it reads back as that integer.
\<close>

lemma nextId_fresh:
  assumes "safe_ids db"
  shows "\<exists>k::int. 1 \<le> k \<and> k \<le> 2 ^ 53 \<and> nextId db = Fin (of_int k)
           \<and> Number (Some (num_json (nextId db))) = Fin (of_int k)
           \<and> (\<forall>p \<in> set db. Number (field p ''id'') \<noteq> NaN
                  \<longrightarrow> num_lt (Number (field p ''id'')) (Fin (of_int k)))"
proof -
  from nextId_safe[OF assms] obtain k0 :: int where k0: "0 \<le> k0" "k0 < 2 ^ 53"
    "max_id db (Fin 0) = Fin (of_int k0)" "nextId db = Fin (of_int (1 + k0))" by blast
  from max_id_is_max[of "Fin 0" db] k0(3)
  have ub: "\<forall>p \<in> set db. num_le (numeric_id_or_0 p) (Fin (of_int k0))" by auto
  have lt: "\<forall>p \<in> set db. Number (field p ''id'') \<noteq> NaN
                  \<longrightarrow> num_lt (Number (field p ''id'')) (Fin (of_int (1 + k0)))"
  proof (intro ballI impI)
    fix p assume p: "p \<in> set db" and nan: "Number (field p ''id'') \<noteq> NaN"
    from ub p have "num_le (numeric_id_or_0 p) (Fin (of_int k0))" by simp
    with nan have "num_le (Number (field p ''id'')) (Fin (of_int k0))"
      by (simp add: numeric_id_or_0_eq)
    then show "num_lt (Number (field p ''id'')) (Fin (of_int (1 + k0)))"
      by (cases "Number (field p ''id'')") (auto simp: num_le_def num_eq_def)
  qed
  have rd: "round_double (of_int (1 + k0)) = Fin (of_int (1 + k0))"
    using k0(1,2) by (intro round_double_small_int) simp_all
  have "(0::rat) \<le> of_int (1 + k0)" using k0(1) by simp
  from num_json_reads_back[OF this rd]
  have rb: "Number (Some (num_json (nextId db))) = Fin (of_int (1 + k0))"
    by (simp add: Number_def k0(4))
  from k0(1,2) have "1 \<le> 1 + k0" "1 + k0 \<le> 2 ^ 53" by simp_all
  with k0(4) rb lt show ?thesis by blast
qed

lemma num_lt_not_eq: "num_lt a b \<Longrightarrow> \<not> num_eq a b"
  by (cases a; cases b) (auto simp: num_eq_def)

lemma post_products_rejects:
  "\<not> truthy (body_field b ''title'') \<or> \<not> truthy (body_field b ''category'') \<Longrightarrow>
   post_products now db b = (Response 400 (Some (error_body ''title and category are required'')), db)"
  by (auto simp: post_products_def split: option.splits)

lemma post_products_accepts:
  "truthy (body_field b ''title'') \<Longrightarrow> truthy (body_field b ''category'') \<Longrightarrow>
   \<exists>t c. body_field b ''title'' = Some t \<and> body_field b ''category'' = Some c
      \<and> post_products now db b =
          (Response 201 (Some (JObj (new_product now db t c b))), db @ [new_product now db t c b])"
  by (cases "body_field b ''title''"; cases "body_field b ''category''")
     (auto simp: post_products_def Let_def)

lemma js_or_field:
  "Some (js_or v (JStr [])) = (if truthy v then v else Some (JStr []))"
  by (cases v) (auto simp: js_or_def)

lemma price_default:
  "num_json (num_or n (Fin 0)) = (if n = NaN \<or> n = Fin 0 then JNum 0 else num_json n)"
  by (cases n) (auto simp: num_or_def)

lemma new_product_fields:
  "map fst (new_product now db t c b) =
     [''id'', ''title'', ''description'', ''price'', ''category'', ''subcategory'', ''images'',
      ''likes'', ''dislikes'', ''createdAt'']"
  "field (new_product now db t c b) ''id'' = Some (num_json (nextId db))"
  "field (new_product now db t c b) ''title'' = Some t"
  "field (new_product now db t c b) ''description'' =
     (if truthy (body_field b ''description'') then body_field b ''description'' else Some (JStr []))"
  "field (new_product now db t c b) ''price'' =
     Some (if Number (body_field b ''price'') = NaN \<or> Number (body_field b ''price'') = Fin 0
           then JNum 0 else num_json (Number (body_field b ''price'')))"
  "field (new_product now db t c b) ''category'' = Some c"
  "field (new_product now db t c b) ''subcategory'' =
     (if truthy (body_field b ''subcategory'') then body_field b ''subcategory'' else Some (JStr []))"
  "field (new_product now db t c b) ''images'' =
     Some (case body_field b ''images'' of Some (JArr xs) \<Rightarrow> JArr xs | _ \<Rightarrow> JArr [])"
  "field (new_product now db t c b) ''likes'' = Some (JNum 0)"
  "field (new_product now db t c b) ''dislikes'' = Some (JNum 0)"
  "field (new_product now db t c b) ''createdAt'' = Some (JNum (of_int now))"
  by (simp_all add: new_product_def field_def js_or_field price_default)




lemma nextId_seed: "nextId (seed 5 6) = Fin 3"
  by code_simp

lemma safe_ids_seed: "safe_ids (seed 5 6)"
  unfolding safe_ids_def by code_simp







section \<open>GET: the filters\<close>

lemma str_includes_sublist: "str_includes s t = sublist t s"
  by (induction s) (simp_all add: sublist_Cons_right)

lemma lowered_cases:
  "lowered eng v = (if text_ok v then Inr (lower_text eng v) else Inl TypeError)"
  by (cases v rule: truthy.cases) (auto simp: lowered_def text_ok_def lower_text_def)

lemma matches_term_Inr:
  "matches_term eng tm p = Inr b \<Longrightarrow>
   b = (sublist tm (lower_text eng (field p ''title''))
        \<or> sublist tm (lower_text eng (field p ''description'')))"
  by (auto simp: matches_term_def lowered_cases str_includes_sublist split: if_splits)

lemma matches_term_total:
  "text_ok (field p ''title'') \<Longrightarrow> text_ok (field p ''description'') \<Longrightarrow>
   \<exists>b. matches_term eng tm p = Inr b"
  by (auto simp: matches_term_def lowered_cases)

lemma filter_term_Inr:
  "filter_term eng tm ps = Inr r \<Longrightarrow>
   r = filter (\<lambda>p. sublist tm (lower_text eng (field p ''title''))
                  \<or> sublist tm (lower_text eng (field p ''description''))) ps"
proof (induction ps arbitrary: r)
  case Nil
  then show ?case by simp
next
  case (Cons p ps)
  from Cons.prems obtain b r' where b: "matches_term eng tm p = Inr b"
    and r': "filter_term eng tm ps = Inr r'" and r: "r = (if b then p # r' else r')"
    by (auto split: sum.splits)
  from matches_term_Inr[OF b] Cons.IH[OF r'] r show ?case by simp
qed

lemma filter_term_total:
  "\<forall>p \<in> set ps. text_ok (field p ''title'') \<and> text_ok (field p ''description'') \<Longrightarrow>
   \<exists>r. filter_term eng tm ps = Inr r"
proof (induction ps)
  case Nil
  then show ?case by simp
next
  case (Cons p ps)
  then obtain r where r: "filter_term eng tm ps = Inr r" by auto
  from Cons.prems matches_term_total[of p eng tm] obtain b where "matches_term eng tm p = Inr b"
    by auto
  with r show ?case by simp
qed

lemma by_category_filter:
  "by_category c items =
     filter (\<lambda>p. case c of None \<Rightarrow> True | Some s \<Rightarrow> s = [] \<or> field p ''category'' = Some (JStr s)) items"
  by (cases c) (auto simp: by_category_def)

lemma by_subcategory_filter:
  "by_subcategory c items =
     filter (\<lambda>p. case c of None \<Rightarrow> True | Some s \<Rightarrow> s = [] \<or> field p ''subcategory'' = Some (JStr s)) items"
  by (cases c) (auto simp: by_subcategory_def)

lemma by_q_Inr:
  "by_q eng t items = Inr r \<Longrightarrow>
   r = filter (\<lambda>p. case t of None \<Rightarrow> True
                   | Some s \<Rightarrow> s = [] \<or> sublist (toLowerCase eng s) (lower_text eng (field p ''title''))
                              \<or> sublist (toLowerCase eng s) (lower_text eng (field p ''description''))) items"
  by (cases t) (auto simp: by_q_def dest: filter_term_Inr split: if_splits)

lemma by_q_total:
  "\<forall>p \<in> set items. text_ok (field p ''title'') \<and> text_ok (field p ''description'') \<Longrightarrow>
   \<exists>r. by_q eng t items = Inr r"
  by (cases t) (auto simp: by_q_def intro: filter_term_total)

lemma list_items_Inr:
  assumes "list_items eng db qr = Inr items"
  shows "items = sort_items eng (query_sort qr) (filter (kept eng qr) db)"
proof -
  let ?xs = "by_subcategory (query_subcategory qr) (by_category (query_category qr) db)"
  from assms obtain r where r: "by_q eng (query_q qr) ?xs = Inr r"
    and i: "items = sort_items eng (query_sort qr) r"
    by (auto simp: list_items_def split: sum.splits)
  have "r = filter (kept eng qr) db"
    unfolding by_q_Inr[OF r] by_subcategory_filter by_category_filter filter_filter kept_def
    by (rule filter_cong) auto
  with i show ?thesis by simp
qed

lemma list_items_total:
  assumes "\<forall>p \<in> set db. text_ok (field p ''title'') \<and> text_ok (field p ''description'')"
  shows "\<exists>items. list_items eng db qr = Inr items"
proof -
  let ?xs = "by_subcategory (query_subcategory qr) (by_category (query_category qr) db)"
  have "set ?xs \<subseteq> set db" by (auto simp: by_subcategory_def by_category_def)
  with assms have "\<forall>p \<in> set ?xs. text_ok (field p ''title'') \<and> text_ok (field p ''description'')"
    by blast
  from by_q_total[OF this, of eng "query_q qr"] show ?thesis
    by (auto simp: list_items_def)
qed

section \<open>GET: the sort\<close>

lemma conforming_mset: "conforming eng \<Longrightarrow> mset (array_sort eng cmp xs) = mset xs"
  by (simp add: conforming_def)

lemma conforming_set: "conforming eng \<Longrightarrow> set (array_sort eng cmp xs) = set xs"
  using conforming_mset[of eng cmp xs] by (metis set_mset_mset)

lemma conforming_sorted:
  "conforming eng \<Longrightarrow> consistent_on cmp (set xs) \<Longrightarrow>
   sorted_wrt (\<lambda>a b. cmp_sign (cmp a b) \<le> 0) (array_sort eng cmp xs)"
  by (simp add: conforming_def)

lemma mset_sort_items: "conforming eng \<Longrightarrow> mset (sort_items eng s items) = mset items"
  by (simp add: sort_items_def Let_def conforming_mset)

text \<open>
  The difference of two keys has the sign of their order, so a comparator
  that subtracts keys is consistent wherever no key is NaN.
\<close>

lemma ord3_refl: "ord3 a a = 0"
  by (cases a) (simp_all add: ord3_def)

lemma ord3_flip: "ord3 a b = - ord3 b a"
  by (cases a; cases b) (auto simp: ord3_def)

lemma consistent_on_key_difference:
  assumes "\<forall>p \<in> S. key p \<noteq> NaN" "\<forall>p. on_grid (key p)"
  shows "consistent_on (\<lambda>a b. num_sub (key a) (key b)) S"
proof -
  have s: "cmp_sign (num_sub (key a) (key b)) = ord3 (key a) (key b)" if "a \<in> S" "b \<in> S" for a b
    using that assms by (intro cmp_sign_sub) auto
  have t: "ord3 (key a) (key c) \<le> 0"
    if "a \<in> S" "b \<in> S" "c \<in> S" "ord3 (key a) (key b) \<le> 0" "ord3 (key b) (key c) \<le> 0" for a b c
  proof -
    from that assms(1) have n: "key a \<noteq> NaN" "key b \<noteq> NaN" "key c \<noteq> NaN" by auto
    from that(4,5) n have "num_le (key a) (key b)" "num_le (key b) (key c)"
      by (simp_all add: ord3_le_iff)
    then have "num_le (key a) (key c)" by (rule num_le_trans)
    with n show ?thesis by (simp add: ord3_le_iff)
  qed
  show ?thesis
    unfolding consistent_on_def
  proof (intro ballI conjI impI)
    fix a b c assume m: "a \<in> S" "b \<in> S" "c \<in> S"
    show "cmp_sign (num_sub (key a) (key a)) = 0" using m by (simp add: s ord3_refl)
    show "cmp_sign (num_sub (key a) (key b)) = - cmp_sign (num_sub (key b) (key a))"
      using m ord3_flip[of "key a" "key b"] by (simp add: s)
    assume "cmp_sign (num_sub (key a) (key b)) \<le> 0 \<and> cmp_sign (num_sub (key b) (key c)) \<le> 0"
    with m have "ord3 (key a) (key b) \<le> 0" "ord3 (key b) (key c) \<le> 0" by (simp_all add: s)
    from t[OF m this] show "cmp_sign (num_sub (key a) (key c)) \<le> 0" using m by (simp add: s)
  qed
qed

lemma consistent_on_flip:
  "consistent_on cmp S \<Longrightarrow> consistent_on (\<lambda>a b. cmp b a) S"
  unfolding consistent_on_def
proof (intro ballI conjI impI)
  fix a b c
  assume h: "\<forall>a \<in> S. \<forall>b \<in> S. \<forall>c \<in> S.
        cmp_sign (cmp a a) = 0
        \<and> cmp_sign (cmp a b) = - cmp_sign (cmp b a)
        \<and> (cmp_sign (cmp a b) \<le> 0 \<and> cmp_sign (cmp b c) \<le> 0 \<longrightarrow> cmp_sign (cmp a c) \<le> 0)"
    and m: "a \<in> S" "b \<in> S" "c \<in> S"
  from h m show "cmp_sign (cmp a a) = 0" by blast
  from h m show "cmp_sign (cmp b a) = - cmp_sign (cmp a b)" by blast
  assume "cmp_sign (cmp b a) \<le> 0 \<and> cmp_sign (cmp c b) \<le> 0"
  with h m show "cmp_sign (cmp c a) \<le> 0" by blast
qed

lemma sorted_by_key_ascending:
  assumes "conforming eng" "\<forall>p \<in> set xs. key p \<noteq> NaN" "\<forall>p. on_grid (key p)"
  shows "sorted_wrt (\<lambda>a b. num_le (key a) (key b))
           (array_sort eng (\<lambda>a b. num_sub (key a) (key b)) xs)"
proof -
  let ?ys = "array_sort eng (\<lambda>a b. num_sub (key a) (key b)) xs"
  from consistent_on_key_difference[OF assms(2,3)]
  have "sorted_wrt (\<lambda>a b. cmp_sign (num_sub (key a) (key b)) \<le> 0) ?ys"
    by (rule conforming_sorted[OF assms(1)])
  moreover have "num_le (key a) (key b)"
    if "a \<in> set ?ys" "b \<in> set ?ys" "cmp_sign (num_sub (key a) (key b)) \<le> 0" for a b
  proof -
    from that(1,2) have m: "a \<in> set xs" "b \<in> set xs" by (simp_all add: conforming_set[OF assms(1)])
    with assms(2) have n: "key a \<noteq> NaN" "key b \<noteq> NaN" by auto
    from that(3) have "ord3 (key a) (key b) \<le> 0" using cmp_sign_sub[of "key a" "key b"] n assms(3) by simp
    with n show ?thesis by (simp add: ord3_le_iff)
  qed
  ultimately show ?thesis by (rule sorted_wrt_mono_rel[rotated])
qed

lemma sorted_by_key_descending:
  assumes "conforming eng" "\<forall>p \<in> set xs. key p \<noteq> NaN" "\<forall>p. on_grid (key p)"
  shows "sorted_wrt (\<lambda>a b. num_le (key b) (key a))
           (array_sort eng (\<lambda>a b. num_sub (key b) (key a)) xs)"
proof -
  let ?ys = "array_sort eng (\<lambda>a b. num_sub (key b) (key a)) xs"
  from consistent_on_flip[OF consistent_on_key_difference[OF assms(2,3)]]
  have "sorted_wrt (\<lambda>a b. cmp_sign (num_sub (key b) (key a)) \<le> 0) ?ys"
    by (rule conforming_sorted[OF assms(1)])
  moreover have "num_le (key b) (key a)"
    if "a \<in> set ?ys" "b \<in> set ?ys" "cmp_sign (num_sub (key b) (key a)) \<le> 0" for a b
  proof -
    from that(1,2) have m: "a \<in> set xs" "b \<in> set xs" by (simp_all add: conforming_set[OF assms(1)])
    with assms(2) have n: "key a \<noteq> NaN" "key b \<noteq> NaN" by auto
    from that(3) have "ord3 (key b) (key a) \<le> 0" using cmp_sign_sub[of "key b" "key a"] n assms(3) by simp
    with n show ?thesis by (simp add: ord3_le_iff)
  qed
  ultimately show ?thesis by (rule sorted_wrt_mono_rel[rotated])
qed

lemma sort_items_price_asc:
  "sort_items eng (Some ''price-asc'') items =
     array_sort eng (\<lambda>a b. num_sub (price_of a) (price_of b)) items"
  by (simp add: sort_items_def price_asc_def[abs_def] price_of_def)

lemma sort_items_price_desc:
  "sort_items eng (Some ''price-desc'') items =
     array_sort eng (\<lambda>a b. num_sub (price_of b) (price_of a)) items"
  by (simp add: sort_items_def price_desc_def[abs_def] price_of_def)

lemma sort_items_newest:
  "s \<noteq> Some ''price-asc'' \<Longrightarrow> s \<noteq> Some ''price-desc'' \<Longrightarrow>
   sort_items eng s items =
     array_sort eng (\<lambda>a b. num_sub (createdAt_of b) (createdAt_of a)) items"
  by (cases s) (simp_all add: sort_items_def newest_def[abs_def] createdAt_of_def)

lemma on_grid_keys: "on_grid (price_of p)" "on_grid (createdAt_of p)"
  by (simp_all add: price_of_def createdAt_of_def on_grid_num_or0)

lemma round_double_not_NaN: "round_double r \<noteq> NaN"
  by (simp add: round_double_def Let_def)

lemma num_or0_JNum: "num_or0 (Some (JNum r)) = round_double r"
  by (cases "round_double r") (auto simp: num_or0_def Number_def round_double_not_NaN)

lemma num_or0_None: "num_or0 None = Fin 0"
  by (simp add: num_or0_def)

text \<open>A sorted rearrangement of three elements in strictly descending order is their reverse.\<close>

lemma sorted_three:
  assumes m: "mset ys = mset [x1, x2, x3]" and s: "sorted_wrt R ys"
    and d: "distinct [x1, x2, x3]"
    and n: "\<not> R x3 x2" "\<not> R x3 x1" "\<not> R x2 x1"
  shows "ys = [x1, x2, x3]"
proof -
  from m have "length ys = length [x1, x2, x3]" by (rule mset_eq_length)
  then obtain u v w where ys: "ys = [u, v, w]"
    by (cases ys; cases "tl ys"; cases "tl (tl ys)") auto
  from m d have dy: "distinct ys" using mset_eq_imp_distinct_iff by blast
  from m have st: "set ys = set [x1, x2, x3]" by (rule mset_eq_setD)
  from s ys have r: "R u v" "R u w" "R v w" by auto
  from st ys have "u \<in> {x1, x2, x3}" "v \<in> {x1, x2, x3}" "w \<in> {x1, x2, x3}" by auto
  with dy ys r n show ?thesis by auto
qed

section \<open>The example engine\<close>

lemma mset_insert_by: "mset (insert_by cmp x ys) = add_mset x (mset ys)"
  by (induction ys) auto

lemma mset_insertion_sort: "mset (insertion_sort cmp xs) = mset xs"
  by (induction xs) (simp_all add: insertion_sort_def mset_insert_by)

lemma set_insertion_sort: "set (insertion_sort cmp xs) = set xs"
  using mset_insertion_sort[of cmp xs] by (metis set_mset_mset)

lemma set_insert_by: "set (insert_by cmp x ys) = insert x (set ys)"
  using mset_insert_by[of cmp x ys] by (metis set_mset_mset set_mset_add_mset_insert)

lemma sorted_insert_by:
  assumes c: "consistent_on cmp A"
  shows "x \<in> A \<Longrightarrow> set ys \<subseteq> A \<Longrightarrow> sorted_wrt (\<lambda>a b. cmp_sign (cmp a b) \<le> 0) ys
         \<Longrightarrow> sorted_wrt (\<lambda>a b. cmp_sign (cmp a b) \<le> 0) (insert_by cmp x ys)"
proof (induction ys)
  case Nil
  then show ?case by simp
next
  case (Cons y ys)
  from Cons.prems have xA: "x \<in> A" and yA: "y \<in> A" and ysA: "set ys \<subseteq> A"
    and yys: "\<forall>z \<in> set ys. cmp_sign (cmp y z) \<le> 0"
    and sys: "sorted_wrt (\<lambda>a b. cmp_sign (cmp a b) \<le> 0) ys" by auto
  from c xA yA have flip: "cmp_sign (cmp x y) = - cmp_sign (cmp y x)"
    unfolding consistent_on_def by blast
  have trans: "cmp_sign (cmp a d) \<le> 0"
    if "a \<in> A" "b \<in> A" "d \<in> A" "cmp_sign (cmp a b) \<le> 0" "cmp_sign (cmp b d) \<le> 0" for a b d
    using c that unfolding consistent_on_def by blast
  show ?case
  proof (cases "0 < cmp_sign (cmp x y)")
    case True
    with flip have "cmp_sign (cmp y x) \<le> 0" by simp
    with yys have "\<forall>z \<in> set (insert_by cmp x ys). cmp_sign (cmp y z) \<le> 0"
      by (simp add: set_insert_by)
    with True Cons.IH[OF xA ysA sys] show ?thesis by simp
  next
    case False
    then have xy: "cmp_sign (cmp x y) \<le> 0" by simp
    have "\<forall>z \<in> set ys. cmp_sign (cmp x z) \<le> 0"
    proof
      fix z assume z: "z \<in> set ys"
      with yys have "cmp_sign (cmp y z) \<le> 0" by blast
      with xy xA yA ysA z show "cmp_sign (cmp x z) \<le> 0" using trans[of x y z] by blast
    qed
    with False xy Cons.prems(3) show ?thesis by simp
  qed
qed

lemma sorted_insertion_sort:
  assumes "consistent_on cmp A"
  shows "set xs \<subseteq> A \<Longrightarrow> sorted_wrt (\<lambda>a b. cmp_sign (cmp a b) \<le> 0) (insertion_sort cmp xs)"
proof (induction xs)
  case Nil
  then show ?case by (simp add: insertion_sort_def)
next
  case (Cons x xs)
  then have "sorted_wrt (\<lambda>a b. cmp_sign (cmp a b) \<le> 0) (insertion_sort cmp xs)" "x \<in> A"
    "set (insertion_sort cmp xs) \<subseteq> A"
    by (auto simp: set_insertion_sort)
  then have "sorted_wrt (\<lambda>a b. cmp_sign (cmp a b) \<le> 0) (insert_by cmp x (insertion_sort cmp xs))"
    using sorted_insert_by[OF assms] by blast
  then show ?case by (simp add: insertion_sort_def)
qed

lemma conforming_example_engine: "conforming example_engine"
  unfolding conforming_def
proof (intro allI conjI impI)
  fix cmp :: "product \<Rightarrow> product \<Rightarrow> jsnum" and xs
  show "mset (array_sort example_engine cmp xs) = mset xs"
    by (simp add: example_engine_def mset_insertion_sort)
  assume "consistent_on cmp (set xs)"
  from sorted_insertion_sort[OF this, of xs]
  show "sorted_wrt (\<lambda>a b. cmp_sign (cmp a b) \<le> 0) (array_sort example_engine cmp xs)"
    by (simp add: example_engine_def)
qed

text \<open>
  C4. GET with query \<open>qr\<close>. Whenever the handler produces a list, it is the
  sort of exactly the stored products that pass every provided filter
  (\<open>kept\<close>): category and subcategory equal to the given string, and the
  lowered \<open>q\<close> a substring of the lowered title or of the lowered description,
  an absent one counting as empty. The sort rearranges, so the products of the
  response are the stored products that pass the filters; the response is 200
  \<^verbatim>\<open>{items}\<close>. The handler produces a list whenever every stored title and
  description is a string or falsy (any other value makes \<^verbatim>\<open>toLowerCase\<close>
  throw). In every case the file is left as it was.
\<close>

theorem list_items_filters:
  "(\<forall>items. list_items eng db qr = Inr items \<longrightarrow>
        items = sort_items eng (query_sort qr) (filter (kept eng qr) db)
        \<and> (conforming eng \<longrightarrow> (\<forall>p. (p \<in> set items) = (p \<in> set db \<and> kept eng qr p)))
        \<and> get_products eng db qr =
            (Inr (Response 200 (Some (JObj [(''items'', JArr (map JObj items))]))), db))
   \<and> ((\<forall>p \<in> set db. text_ok (field p ''title'') \<and> text_ok (field p ''description'')) \<longrightarrow>
        (\<exists>items. list_items eng db qr = Inr items))
   \<and> snd (get_products eng db qr) = db"
proof -
  have 1: "items = sort_items eng (query_sort qr) (filter (kept eng qr) db)
        \<and> (conforming eng \<longrightarrow> (\<forall>p. (p \<in> set items) = (p \<in> set db \<and> kept eng qr p)))
        \<and> get_products eng db qr =
            (Inr (Response 200 (Some (JObj [(''items'', JArr (map JObj items))]))), db)"
    if a: "list_items eng db qr = Inr items" for items
  proof -
    from a have i: "items = sort_items eng (query_sort qr) (filter (kept eng qr) db)"
      by (rule list_items_Inr)
    have m: "\<forall>p. (p \<in> set items) = (p \<in> set db \<and> kept eng qr p)" if c: "conforming eng"
    proof -
      have "set items = set (filter (kept eng qr) db)"
        unfolding i using mset_sort_items[OF c, of "query_sort qr" "filter (kept eng qr) db"]
        by (metis set_mset_mset)
      then show ?thesis by auto
    qed
    from a have "get_products eng db qr =
            (Inr (Response 200 (Some (JObj [(''items'', JArr (map JObj items))]))), db)"
      by (simp add: get_products_def)
    with i m show ?thesis by blast
  qed
  have 2: "\<exists>items. list_items eng db qr = Inr items"
    if "\<forall>p \<in> set db. text_ok (field p ''title'') \<and> text_ok (field p ''description'')"
    using that by (rule list_items_total)
  have 3: "snd (get_products eng db qr) = db"
    by (simp add: get_products_def split: sum.splits)
  from 1 2 3 show ?thesis by blast
qed

lemma seed_text_ok:
  "\<forall>p \<in> set (seed 5 6). text_ok (field p ''title'') \<and> text_ok (field p ''description'')"
  by (simp add: seed_def field_def text_ok_def)

lemma kept_chair_seed:
  "filter (kept example_engine (Query (Some ''CHAIR'') (Some ''Home & Garden'') None None)) (seed 5 6)
     = [seed 5 6 ! 1]"
  by code_simp

lemma kept_electronics_chair_seed:
  "filter (kept example_engine (Query (Some ''chair'') (Some ''Electronics'') None None)) (seed 5 6) = []"
  by code_simp

lemma kept_chair_seed_first:
  "\<not> kept example_engine (Query (Some ''CHAIR'') (Some ''Home & Garden'') None None) (seed 5 6 ! 0)"
  by code_simp

lemma kept_cafe:
  "filter (kept example_engine (Query (Some (''caf'' @ [CHR 0xC3, CHR 0xA9])) None None None))
     [[(''title'', JStr (''CAF'' @ [CHR 0xC3, CHR 0x89]))]]
   = [[(''title'', JStr (''CAF'' @ [CHR 0xC3, CHR 0x89]))]]"
  by code_simp

lemma sort_items_short:
  "sort_items example_engine s [] = []" "sort_items example_engine s [x] = [x]"
  by (simp_all add: sort_items_def Let_def example_engine_def insertion_sort_def)

theorem list_items_filters_witness:
  "list_items example_engine (seed 5 6) (Query (Some ''CHAIR'') (Some ''Home & Garden'') None None)
     = Inr [seed 5 6 ! 1]
   \<and> seed 5 6 ! 0 \<notin> set [seed 5 6 ! 1]
   \<and> list_items example_engine (seed 5 6) (Query (Some ''chair'') (Some ''Electronics'') None None) = Inr []
   \<and> snd (get_products example_engine (seed 5 6) (Query (Some ''chair'') (Some ''Electronics'') None None))
       = seed 5 6
   \<and> list_items example_engine [[(''title'', JStr (''CAF'' @ [CHR 0xC3, CHR 0x89]))]]
        (Query (Some (''caf'' @ [CHR 0xC3, CHR 0xA9])) None None None)
       = Inr [[(''title'', JStr (''CAF'' @ [CHR 0xC3, CHR 0x89]))]]"
proof -
  let ?q1 = "Query (Some ''CHAIR'') (Some ''Home & Garden'') None None"
  let ?q2 = "Query (Some ''chair'') (Some ''Electronics'') None None"
  note t1 = list_items_filters[of example_engine "seed 5 6" ?q1]
  note t2 = list_items_filters[of example_engine "seed 5 6" ?q2]
  from t1 seed_text_ok obtain i1 where i1: "list_items example_engine (seed 5 6) ?q1 = Inr i1" by blast
  with t1 have "i1 = sort_items example_engine (query_sort ?q1) (filter (kept example_engine ?q1) (seed 5 6))"
    by blast
  then have 1: "i1 = [seed 5 6 ! 1]" by (simp only: kept_chair_seed sort_items_short)
  from t1 i1 conforming_example_engine
  have "\<forall>p. (p \<in> set i1) = (p \<in> set (seed 5 6) \<and> kept example_engine ?q1 p)" by blast
  with kept_chair_seed_first have "seed 5 6 ! 0 \<notin> set i1" by blast
  with 1 have m: "seed 5 6 ! 0 \<notin> set [seed 5 6 ! 1]" by simp
  from t2 seed_text_ok obtain i2 where i2: "list_items example_engine (seed 5 6) ?q2 = Inr i2" by blast
  with t2 have "i2 = sort_items example_engine (query_sort ?q2) (filter (kept example_engine ?q2) (seed 5 6))"
    by blast
  then have 2: "i2 = []" by (simp only: kept_electronics_chair_seed sort_items_short)
  from t2 have 3: "snd (get_products example_engine (seed 5 6) ?q2) = seed 5 6" by blast
  let ?q3 = "Query (Some (''caf'' @ [CHR 0xC3, CHR 0xA9])) None None None"
  let ?db3 = "[[(''title'', JStr (''CAF'' @ [CHR 0xC3, CHR 0x89]))]] :: product list"
  note t3 = list_items_filters[of example_engine ?db3 ?q3]
  have ok3: "\<forall>p \<in> set ?db3. text_ok (field p ''title'') \<and> text_ok (field p ''description'')"
    by (simp add: field_def text_ok_def)
  from t3 ok3 obtain i3 where i3: "list_items example_engine ?db3 ?q3 = Inr i3" by blast
  with t3 have "i3 = sort_items example_engine (query_sort ?q3) (filter (kept example_engine ?q3) ?db3)"
    by blast
  then have 4: "i3 = ?db3" by (simp only: kept_cafe sort_items_short)
  from i1 1 i2 2 3 m have "list_items example_engine (seed 5 6) ?q1 = Inr [seed 5 6 ! 1]
   \<and> seed 5 6 ! 0 \<notin> set [seed 5 6 ! 1]
   \<and> list_items example_engine (seed 5 6) ?q2 = Inr []
   \<and> snd (get_products example_engine (seed 5 6) ?q2) = seed 5 6" by simp
  with i3 4 show ?thesis by blast
qed

lemma num_le_not_NaN: "num_le a b \<Longrightarrow> a \<noteq> NaN \<and> b \<noteq> NaN"
  by (cases a; cases b) (auto simp: num_le_def num_eq_def)

lemma price_abc: "price_of [(''price'', JStr ''abc'')] = NaN"
  by code_simp

text \<open>
  C5 as stated fails: a stored price need not be a number. For the prices 5,
  \<^verbatim>\<open>"abc"\<close>, 3 the comparator returns NaN on \<^verbatim>\<open>"abc"\<close>, so no rearrangement of the
  three products is in ascending order of price, whatever the engine's sort
  does; a stable insertion sort leaves them as they are, 5 before 3.
\<close>

theorem sort_items_not_ascending:
  "(\<forall>eng. \<not> (mset (sort_items eng (Some ''price-asc'')
                     [[(''price'', JNum 5)], [(''price'', JStr ''abc'')], [(''price'', JNum 3)]])
               = mset [[(''price'', JNum 5)], [(''price'', JStr ''abc'')], [(''price'', JNum 3)]]
             \<and> sorted_wrt (\<lambda>a b. num_le (price_of a) (price_of b))
                 (sort_items eng (Some ''price-asc'')
                    [[(''price'', JNum 5)], [(''price'', JStr ''abc'')], [(''price'', JNum 3)]])))
   \<and> sort_items example_engine (Some ''price-asc'')
        [[(''price'', JNum 5)], [(''price'', JStr ''abc'')], [(''price'', JNum 3)]]
      = [[(''price'', JNum 5)], [(''price'', JStr ''abc'')], [(''price'', JNum 3)]]
   \<and> price_of [(''price'', JStr ''abc'')] = NaN
   \<and> price_of [(''price'', JNum 5)] = Fin 5
   \<and> price_of [(''price'', JNum 3)] = Fin 3"
proof -
  let ?xs = "[[(''price'', JNum 5)], [(''price'', JStr ''abc'')], [(''price'', JNum 3)]]"
  let ?q = "[(''price'', JStr ''abc'')]"
  have a: "\<not> (mset ys = mset ?xs \<and> sorted_wrt (\<lambda>a b. num_le (price_of a) (price_of b)) ys)" for ys
  proof
    assume h: "mset ys = mset ?xs \<and> sorted_wrt (\<lambda>a b. num_le (price_of a) (price_of b)) ys"
    then have "length ys = length ?xs" using mset_eq_length by blast
    then obtain u v w where ys: "ys = [u, v, w]"
      by (cases ys; cases "tl ys"; cases "tl (tl ys)") auto
    from h have "set ys = set ?xs" using mset_eq_setD by blast
    with ys have q: "?q = u \<or> ?q = v \<or> ?q = w" by auto
    from h ys have "num_le (price_of u) (price_of v)" "num_le (price_of u) (price_of w)" by auto
    then have "price_of u \<noteq> NaN" "price_of v \<noteq> NaN" "price_of w \<noteq> NaN"
      using num_le_not_NaN by blast+
    with q price_abc show False by auto
  qed
  have b: "sort_items example_engine (Some ''price-asc'') ?xs = ?xs" by code_simp
  have c: "price_of [(''price'', JNum 5)] = Fin 5" "price_of [(''price'', JNum 3)] = Fin 3"
    by code_simp+
  from a have "\<forall>eng. \<not> (mset (sort_items eng (Some ''price-asc'') ?xs) = mset ?xs
             \<and> sorted_wrt (\<lambda>a b. num_le (price_of a) (price_of b))
                 (sort_items eng (Some ''price-asc'') ?xs))" by blast
  with b c price_abc show ?thesis by blast
qed

lemma example_prices:
  "price_of [(''price'', JNum 150)] = Fin 150"
  "price_of [(''price'', JNum 50)] = Fin 50"
  "price_of [(''price'', JNum 800)] = Fin 800"
  by code_simp+

text \<open>
  C5, amended. For an engine whose sort meets ECMAScript's contract, the sort
  of GET returns a rearrangement of its input, and when no key compared is
  NaN it is in order: with \<^verbatim>\<open>sort=price-asc\<close> in ascending order of price, with
  \<^verbatim>\<open>sort=price-desc\<close> in descending order of price, and with any other value, or
  none, in descending order of \<^verbatim>\<open>createdAt\<close>. Prices 150, 50, 800 come out as
  50, 150, 800 ascending and as 800, 150, 50 descending. A missing price or
  \<^verbatim>\<open>createdAt\<close> counts as 0, and a stored number as the double it reads as.
\<close>

theorem sort_items_orders:
  "(conforming eng \<longrightarrow>
      mset (sort_items eng s items) = mset items
      \<and> (s = Some ''price-asc'' \<and> (\<forall>p \<in> set items. price_of p \<noteq> NaN) \<longrightarrow>
           sorted_wrt (\<lambda>a b. num_le (price_of a) (price_of b)) (sort_items eng s items))
      \<and> (s = Some ''price-desc'' \<and> (\<forall>p \<in> set items. price_of p \<noteq> NaN) \<longrightarrow>
           sorted_wrt (\<lambda>a b. num_le (price_of b) (price_of a)) (sort_items eng s items))
      \<and> (s \<noteq> Some ''price-asc'' \<and> s \<noteq> Some ''price-desc''
           \<and> (\<forall>p \<in> set items. createdAt_of p \<noteq> NaN) \<longrightarrow>
           sorted_wrt (\<lambda>a b. num_le (createdAt_of b) (createdAt_of a)) (sort_items eng s items))
      \<and> sort_items eng (Some ''price-asc'')
           [[(''price'', JNum 150)], [(''price'', JNum 50)], [(''price'', JNum 800)]]
          = [[(''price'', JNum 50)], [(''price'', JNum 150)], [(''price'', JNum 800)]]
      \<and> sort_items eng (Some ''price-desc'')
           [[(''price'', JNum 150)], [(''price'', JNum 50)], [(''price'', JNum 800)]]
          = [[(''price'', JNum 800)], [(''price'', JNum 150)], [(''price'', JNum 50)]])
   \<and> (\<forall>p. (field p ''price'' = None \<longrightarrow> price_of p = Fin 0)
          \<and> (\<forall>r. field p ''price'' = Some (JNum r) \<longrightarrow> price_of p = round_double r)
          \<and> (field p ''createdAt'' = None \<longrightarrow> createdAt_of p = Fin 0)
          \<and> (\<forall>r. field p ''createdAt'' = Some (JNum r) \<longrightarrow> createdAt_of p = round_double r))"
proof (intro conjI impI allI)
  assume c: "conforming eng"
  then show "mset (sort_items eng s items) = mset items" by (rule mset_sort_items)
  let ?xs = "[[(''price'', JNum 150)], [(''price'', JNum 50)], [(''price'', JNum 800)]] :: product list"
  have ms: "mset (sort_items eng t ?xs) = mset ?xs" for t using c by (rule mset_sort_items)
  have np: "\<forall>p \<in> set ?xs. price_of p \<noteq> NaN" by (simp add: example_prices)
  have sa: "sorted_wrt (\<lambda>a b. num_le (price_of a) (price_of b)) (sort_items eng (Some ''price-asc'') ?xs)"
    using sorted_by_key_ascending[OF c np] by (simp add: sort_items_price_asc on_grid_keys)
  have ma: "mset (sort_items eng (Some ''price-asc'') ?xs)
      = mset [[(''price'', JNum 50)], [(''price'', JNum 150)], [(''price'', JNum 800)]]"
    by (simp add: ms)
  show "sort_items eng (Some ''price-asc'') ?xs
      = [[(''price'', JNum 50)], [(''price'', JNum 150)], [(''price'', JNum 800)]]"
    by (rule sorted_three[OF ma sa]) (simp_all add: example_prices num_le_def num_eq_def)
  have sd: "sorted_wrt (\<lambda>a b. num_le (price_of b) (price_of a)) (sort_items eng (Some ''price-desc'') ?xs)"
    using sorted_by_key_descending[OF c np] by (simp add: sort_items_price_desc on_grid_keys)
  have md: "mset (sort_items eng (Some ''price-desc'') ?xs)
      = mset [[(''price'', JNum 800)], [(''price'', JNum 150)], [(''price'', JNum 50)]]"
    by (simp add: ms)
  show "sort_items eng (Some ''price-desc'') ?xs
      = [[(''price'', JNum 800)], [(''price'', JNum 150)], [(''price'', JNum 50)]]"
    by (rule sorted_three[OF md sd]) (simp_all add: example_prices num_le_def num_eq_def)
next
  assume c: "conforming eng"
    and "s = Some ''price-asc'' \<and> (\<forall>p \<in> set items. price_of p \<noteq> NaN)"
  then show "sorted_wrt (\<lambda>a b. num_le (price_of a) (price_of b)) (sort_items eng s items)"
    using sorted_by_key_ascending[of eng items price_of] by (simp add: sort_items_price_asc on_grid_keys)
next
  assume c: "conforming eng"
    and "s = Some ''price-desc'' \<and> (\<forall>p \<in> set items. price_of p \<noteq> NaN)"
  then show "sorted_wrt (\<lambda>a b. num_le (price_of b) (price_of a)) (sort_items eng s items)"
    using sorted_by_key_descending[of eng items price_of] by (simp add: sort_items_price_desc on_grid_keys)
next
  assume c: "conforming eng"
    and "s \<noteq> Some ''price-asc'' \<and> s \<noteq> Some ''price-desc''
        \<and> (\<forall>p \<in> set items. createdAt_of p \<noteq> NaN)"
  then show "sorted_wrt (\<lambda>a b. num_le (createdAt_of b) (createdAt_of a)) (sort_items eng s items)"
    using sorted_by_key_descending[of eng items createdAt_of] by (simp add: sort_items_newest on_grid_keys)
next
  fix p
  assume "field p ''price'' = None"
  then show "price_of p = Fin 0" by (simp add: price_of_def num_or0_None)
next
  fix p r
  assume "field p ''price'' = Some (JNum r)"
  then show "price_of p = round_double r" by (simp add: price_of_def num_or0_JNum)
next
  fix p
  assume "field p ''createdAt'' = None"
  then show "createdAt_of p = Fin 0" by (simp add: createdAt_of_def num_or0_None)
next
  fix p r
  assume "field p ''createdAt'' = Some (JNum r)"
  then show "createdAt_of p = round_double r" by (simp add: createdAt_of_def num_or0_JNum)
qed

lemma seed_keys_numbers:
  "\<forall>p \<in> set (seed 5 6). price_of p \<noteq> NaN"
  "\<forall>p \<in> set (seed 5 6). createdAt_of p \<noteq> NaN"
  by (simp_all add: seed_def price_of_def createdAt_of_def field_def num_or0_JNum round_double_not_NaN)

lemma sort_items_seed:
  "sort_items example_engine (Some ''price-asc'') (seed 5 6) = [seed 5 6 ! 1, seed 5 6 ! 0]"
  "sort_items example_engine (Some ''price-desc'') (seed 5 6) = [seed 5 6 ! 0, seed 5 6 ! 1]"
  "sort_items example_engine None (seed 5 6) = [seed 5 6 ! 1, seed 5 6 ! 0]"
  by code_simp+

theorem sort_items_orders_witness:
  "mset (sort_items example_engine (Some ''price-asc'') (seed 5 6)) = mset (seed 5 6)
   \<and> sorted_wrt (\<lambda>a b. num_le (price_of a) (price_of b))
        (sort_items example_engine (Some ''price-asc'') (seed 5 6))
   \<and> sorted_wrt (\<lambda>a b. num_le (price_of b) (price_of a))
        (sort_items example_engine (Some ''price-desc'') (seed 5 6))
   \<and> sorted_wrt (\<lambda>a b. num_le (createdAt_of b) (createdAt_of a))
        (sort_items example_engine None (seed 5 6))
   \<and> sorted_wrt (\<lambda>a b. num_le (createdAt_of b) (createdAt_of a))
        (sort_items example_engine (Some ''oldest'') (seed 5 6))
   \<and> sort_items example_engine (Some ''price-asc'')
        [[(''price'', JNum 150)], [(''price'', JNum 50)], [(''price'', JNum 800)]]
       = [[(''price'', JNum 50)], [(''price'', JNum 150)], [(''price'', JNum 800)]]
   \<and> sort_items example_engine (Some ''price-asc'') (seed 5 6) = [seed 5 6 ! 1, seed 5 6 ! 0]
   \<and> sort_items example_engine (Some ''price-desc'') (seed 5 6) = [seed 5 6 ! 0, seed 5 6 ! 1]
   \<and> sort_items example_engine None (seed 5 6) = [seed 5 6 ! 1, seed 5 6 ! 0]"
proof -
  note ta = sort_items_orders[of example_engine "Some ''price-asc''" "seed 5 6"]
  note td = sort_items_orders[of example_engine "Some ''price-desc''" "seed 5 6"]
  note tn = sort_items_orders[of example_engine None "seed 5 6"]
  note tu = sort_items_orders[of example_engine "Some ''oldest''" "seed 5 6"]
  note c = conforming_example_engine
  from ta c seed_keys_numbers(1)
  have 1: "mset (sort_items example_engine (Some ''price-asc'') (seed 5 6)) = mset (seed 5 6)"
    and 2: "sorted_wrt (\<lambda>a b. num_le (price_of a) (price_of b))
              (sort_items example_engine (Some ''price-asc'') (seed 5 6))"
    and 6: "sort_items example_engine (Some ''price-asc'')
        [[(''price'', JNum 150)], [(''price'', JNum 50)], [(''price'', JNum 800)]]
       = [[(''price'', JNum 50)], [(''price'', JNum 150)], [(''price'', JNum 800)]]"
    by blast+
  from td c seed_keys_numbers(1)
  have 3: "sorted_wrt (\<lambda>a b. num_le (price_of b) (price_of a))
             (sort_items example_engine (Some ''price-desc'') (seed 5 6))"
    by blast
  from tn c seed_keys_numbers(2)
  have 4: "sorted_wrt (\<lambda>a b. num_le (createdAt_of b) (createdAt_of a))
             (sort_items example_engine None (seed 5 6))"
    by simp
  from tu c seed_keys_numbers(2)
  have 5: "sorted_wrt (\<lambda>a b. num_le (createdAt_of b) (createdAt_of a))
             (sort_items example_engine (Some ''oldest'') (seed 5 6))"
    by simp
  from 1 2 3 4 5 6 sort_items_seed show ?thesis by blast
qed

section \<open>Unique ids\<close>

lemma num_eq_sym: "num_eq a b = num_eq b a"
  by (auto simp: num_eq_def)

lemma ids_unique_by_ids:
  "map (\<lambda>p. field p ''id'') xs = map (\<lambda>p. field p ''id'') ys \<Longrightarrow> ids_unique xs = ids_unique ys"
proof (induction xs arbitrary: ys)
  case Nil
  then show ?case by simp
next
  case (Cons x xs)
  then obtain y ys' where ys: "ys = y # ys'" "field x ''id'' = field y ''id''"
    "map (\<lambda>p. field p ''id'') xs = map (\<lambda>p. field p ''id'') ys'" by (cases ys) auto
  have "(\<forall>q \<in> set xs. \<not> num_eq (Number (field x ''id'')) (Number (field q ''id'')))
      = (\<forall>i \<in> set (map (\<lambda>p. field p ''id'') xs). \<not> num_eq (Number (field x ''id'')) (Number i))"
    by simp
  also have "\<dots> = (\<forall>i \<in> set (map (\<lambda>p. field p ''id'') ys'). \<not> num_eq (Number (field y ''id'')) (Number i))"
    by (simp only: ys)
  also have "\<dots> = (\<forall>q \<in> set ys'. \<not> num_eq (Number (field y ''id'')) (Number (field q ''id'')))"
    by simp
  finally show ?case using Cons.IH[OF ys(3)] ys(1) by simp
qed

lemma ids_unique_snoc:
  "ids_unique (xs @ [p]) =
     (ids_unique xs \<and> (\<forall>q \<in> set xs. \<not> num_eq (Number (field q ''id'')) (Number (field p ''id''))))"
  by (induction xs) auto

lemma ids_unique_filter: "ids_unique xs \<Longrightarrow> ids_unique (filter P xs)"
  by (induction xs) auto

lemma ids_merged_same:
  assumes "idx < length db" "id_matches pid (db ! idx)"
  shows "map (\<lambda>p. field p ''id'') (db[idx := merged (db ! idx) b]) = map (\<lambda>p. field p ''id'') db"
proof -
  have "field (merged (db ! idx) b) ''id'' = field (db ! idx) ''id''"
    using field_merged[OF assms(2), of b "''id''"] by simp
  then show ?thesis
    using assms(1) by (simp add: map_update list_update_same_conv)
qed

lemma handle_put_ids:
  "map (\<lambda>p. field p ''id'') (handle eng db (Put pid b)) = map (\<lambda>p. field p ''id'') db"
proof (cases "\<exists>p \<in> set db. id_matches pid p")
  case True
  from put_product_found[OF True, of b] obtain idx where i: "idx < length db"
    "id_matches pid (db ! idx)"
    "put_product db pid b =
       (Response 200 (Some (JObj (merged (db ! idx) b))), db[idx := merged (db ! idx) b])"
    by blast
  with ids_merged_same[OF i(1,2), of b] show ?thesis by simp
next
  case False
  then have "\<forall>p \<in> set db. \<not> id_matches pid p" by simp
  from put_product_not_found[OF this, of b] show ?thesis by simp
qed

lemma handle_delete_filter:
  "handle eng db (Delete pid) = filter (\<lambda>p. \<not> id_matches pid p) db"
  by (auto simp: delete_product_alt filter_id_conv)

lemma handle_get: "handle eng db (Get qr) = db"
  by (simp add: get_products_def split: sum.splits)

lemma handle_post_cases:
  "handle eng db (Post now b) = db
   \<or> (\<exists>prod. handle eng db (Post now b) = db @ [prod]
         \<and> field prod ''id'' = Some (num_json (nextId db)))"
proof (cases "truthy (body_field b ''title'') \<and> truthy (body_field b ''category'')")
  case True
  with post_products_accepts[of b now db] obtain t c where
    "post_products now db b =
       (Response 201 (Some (JObj (new_product now db t c b))), db @ [new_product now db t c b])"
    by blast
  then show ?thesis by (auto simp: new_product_fields(2))
next
  case False
  then have "\<not> truthy (body_field b ''title'') \<or> \<not> truthy (body_field b ''category'')" by simp
  from post_products_rejects[OF this, of now db] show ?thesis by simp
qed

text \<open>One request keeps the ids unique, in both readings of unique.\<close>

lemma handle_keeps_unique:
  assumes "case r of Post now b \<Rightarrow> safe_ids db | _ \<Rightarrow> True"
  shows "(ids_unique db \<longrightarrow> ids_unique (handle eng db r))
       \<and> (distinct (map (\<lambda>p. field p ''id'') db)
            \<longrightarrow> distinct (map (\<lambda>p. field p ''id'') (handle eng db r)))"
proof (cases r)
  case (Get qr)
  then show ?thesis by (simp only: handle_get) simp
next
  case (Put pid b)
  then show ?thesis
    using handle_put_ids[of eng db pid b] ids_unique_by_ids[OF handle_put_ids[of eng db pid b]]
    by simp
next
  case (Delete pid)
  then show ?thesis
    by (simp only: handle_delete_filter) (simp add: ids_unique_filter distinct_map_filter)
next
  case (Post now b)
  with assms have safe: "safe_ids db" by simp
  from nextId_fresh[OF safe] obtain k :: int where
    k: "Number (Some (num_json (nextId db))) = Fin (of_int k)"
      "\<forall>p \<in> set db. Number (field p ''id'') \<noteq> NaN
          \<longrightarrow> num_lt (Number (field p ''id'')) (Fin (of_int k))"
    by blast
  have ne: "\<not> num_eq (Number (field q ''id'')) (Fin (of_int k))" if "q \<in> set db" for q
  proof (cases "Number (field q ''id'') = NaN")
    case True
    then show ?thesis by (simp add: num_eq_def)
  next
    case False
    with k(2) that show ?thesis by (simp add: num_lt_not_eq)
  qed
  from handle_post_cases[of eng db now b] show ?thesis
  proof
    assume "handle eng db (Post now b) = db"
    with Post show ?thesis by simp
  next
    assume "\<exists>prod. handle eng db (Post now b) = db @ [prod]
        \<and> field prod ''id'' = Some (num_json (nextId db))"
    then obtain prod where p: "handle eng db (Post now b) = db @ [prod]"
      "field prod ''id'' = Some (num_json (nextId db))" by auto
    have u: "\<forall>q \<in> set db. \<not> num_eq (Number (field q ''id'')) (Number (field prod ''id''))"
      using ne by (simp only: p(2) k(1)) simp
    have d: "field prod ''id'' \<notin> (\<lambda>p. field p ''id'') ` set db"
    proof
      assume "field prod ''id'' \<in> (\<lambda>p. field p ''id'') ` set db"
      then obtain q where q: "q \<in> set db" "field q ''id'' = Some (num_json (nextId db))"
        using p(2) by auto
      from q(2) have "Number (field q ''id'') = Fin (of_int k)" by (simp only: k(1))
      then have "num_eq (Number (field q ''id'')) (Fin (of_int k))" by (simp add: num_eq_def)
      with ne[OF q(1)] show False by simp
    qed
    from u d p(1) Post show ?thesis by (simp add: ids_unique_snoc)
  qed
qed

section \<open>Ids below a bound\<close>

lemma ids_at_most_safe: "ids_at_most B db \<Longrightarrow> B < 2 ^ 53 \<Longrightarrow> safe_ids db"
  unfolding ids_at_most_def safe_ids_def
proof
  fix p
  assume a: "\<forall>p \<in> set db. case Number (field p ''id'') of
          Fin r \<Rightarrow> r \<le> 0 \<or> (of_int \<lfloor>r\<rfloor> = r \<and> r \<le> of_int B)
        | PInf \<Rightarrow> False
        | _ \<Rightarrow> True"
    and b: "B < 2 ^ 53" and p: "p \<in> set db"
  from b have "(of_int B :: rat) < of_int (2 ^ 53)" by (simp only: of_int_less_iff)
  then have "(of_int B :: rat) < 2 ^ 53" by simp
  with a p show "case Number (field p ''id'') of
          Fin r \<Rightarrow> r \<le> 0 \<or> (of_int \<lfloor>r\<rfloor> = r \<and> r < 2 ^ 53)
        | PInf \<Rightarrow> False
        | _ \<Rightarrow> True"
    by (cases "Number (field p ''id'')") (auto dest!: bspec[where x = p])
qed

lemma ids_at_most_mono: "ids_at_most B db \<Longrightarrow> B \<le> C \<Longrightarrow> ids_at_most C db"
  unfolding ids_at_most_def
proof
  fix p
  assume a: "\<forall>p \<in> set db. case Number (field p ''id'') of
          Fin r \<Rightarrow> r \<le> 0 \<or> (of_int \<lfloor>r\<rfloor> = r \<and> r \<le> of_int B)
        | PInf \<Rightarrow> False
        | _ \<Rightarrow> True"
    and b: "B \<le> C" and p: "p \<in> set db"
  from b have "(of_int B :: rat) \<le> of_int C" by simp
  with a p show "case Number (field p ''id'') of
          Fin r \<Rightarrow> r \<le> 0 \<or> (of_int \<lfloor>r\<rfloor> = r \<and> r \<le> of_int C)
        | PInf \<Rightarrow> False
        | _ \<Rightarrow> True"
    by (cases "Number (field p ''id'')") (auto dest!: bspec[where x = p])
qed

lemma ids_at_most_by_ids:
  assumes "(\<lambda>p. field p ''id'') ` set ys \<subseteq> (\<lambda>p. field p ''id'') ` set xs" "ids_at_most B xs"
  shows "ids_at_most B ys"
  unfolding ids_at_most_def
proof
  fix q assume "q \<in> set ys"
  with assms(1) obtain p where p: "p \<in> set xs" "field q ''id'' = field p ''id''" by auto
  from assms(2) p(1) show "case Number (field q ''id'') of
          Fin r \<Rightarrow> r \<le> 0 \<or> (of_int \<lfloor>r\<rfloor> = r \<and> r \<le> of_int B)
        | PInf \<Rightarrow> False
        | _ \<Rightarrow> True"
    by (simp add: ids_at_most_def p(2))
qed

lemma nextId_at_most:
  assumes a: "ids_at_most B db" and b: "0 \<le> B" "B < 2 ^ 53"
  shows "\<exists>k::int. 1 \<le> k \<and> k \<le> B + 1 \<and> Number (Some (num_json (nextId db))) = Fin (of_int k)"
proof -
  from ids_at_most_safe[OF a b(2)] have safe: "safe_ids db" .
  from nextId_safe[OF safe] obtain k0 :: int where k0: "0 \<le> k0" "k0 < 2 ^ 53"
    "max_id db (Fin 0) = Fin (of_int k0)" "nextId db = Fin (of_int (1 + k0))" by blast
  from nextId_fresh[OF safe] k0(4) have rb: "Number (Some (num_json (nextId db))) = Fin (of_int (1 + k0))"
    by auto
  have "k0 \<le> B"
  proof (cases "k0 = 0")
    case True
    with b(1) show ?thesis by simp
  next
    case False
    from max_id_is_max[of "Fin 0" db] k0(3)
    have "Fin (of_int k0) \<in> insert (Fin 0) (numeric_id_or_0 ` set db)" by auto
    with False obtain p where p: "p \<in> set db" "numeric_id_or_0 p = Fin (of_int k0)" by auto
    with False have n: "Number (field p ''id'') = Fin (of_int k0)"
      by (auto simp: numeric_id_or_0_eq split: if_splits)
    from a p(1) have "case Number (field p ''id'') of
          Fin r \<Rightarrow> r \<le> 0 \<or> (of_int \<lfloor>r\<rfloor> = r \<and> r \<le> of_int B)
        | PInf \<Rightarrow> False
        | _ \<Rightarrow> True" by (simp add: ids_at_most_def)
    with n have "(of_int k0 :: rat) \<le> 0 \<or> (of_int k0 :: rat) \<le> of_int B" by auto
    with k0(1) False b(1) show ?thesis by auto
  qed
  with k0(1) rb show ?thesis by (intro exI[of _ "1 + k0"]) simp
qed

lemma handle_keeps_at_most:
  assumes a: "ids_at_most B db" and b: "0 \<le> B" "B < 2 ^ 53"
  shows "ids_at_most (B + 1) (handle eng db r)"
proof (cases r)
  case (Get qr)
  then have "handle eng db r = db" by (simp only: handle_get)
  with ids_at_most_mono[OF a, of "B + 1"] show ?thesis by simp
next
  case (Delete pid)
  then have h: "handle eng db r = filter (\<lambda>p. \<not> id_matches pid p) db"
    by (simp only: handle_delete_filter)
  have "(\<lambda>p. field p ''id'') ` set (filter (\<lambda>p. \<not> id_matches pid p) db)
      \<subseteq> (\<lambda>p. field p ''id'') ` set db" by auto
  from ids_at_most_by_ids[OF this ids_at_most_mono[OF a, of "B + 1"]] h
  show ?thesis by simp
next
  case (Put pid b)
  have "set (map (\<lambda>p. field p ''id'') (handle eng db (Put pid b))) = set (map (\<lambda>p. field p ''id'') db)"
    by (simp only: handle_put_ids)
  then have "(\<lambda>p. field p ''id'') ` set (handle eng db (Put pid b))
      \<subseteq> (\<lambda>p. field p ''id'') ` set db" by simp
  from ids_at_most_by_ids[OF this ids_at_most_mono[OF a, of "B + 1"]] Put
  show ?thesis by simp
next
  case (Post now body)
  from nextId_at_most[OF a b] obtain k :: int where k: "1 \<le> k" "k \<le> B + 1"
    "Number (Some (num_json (nextId db))) = Fin (of_int k)" by blast
  from handle_post_cases[of eng db now body] show ?thesis
  proof
    assume "handle eng db (Post now body) = db"
    with Post ids_at_most_mono[OF a, of "B + 1"] show ?thesis by simp
  next
    assume "\<exists>prod. handle eng db (Post now body) = db @ [prod]
        \<and> field prod ''id'' = Some (num_json (nextId db))"
    then obtain prod where p: "handle eng db (Post now body) = db @ [prod]"
      "field prod ''id'' = Some (num_json (nextId db))" by auto
    from k(2) have "(of_int k :: rat) \<le> of_int (B + 1)" by (simp only: of_int_le_iff)
    then have "case Number (field prod ''id'') of
          Fin r \<Rightarrow> r \<le> 0 \<or> (of_int \<lfloor>r\<rfloor> = r \<and> r \<le> of_int (B + 1))
        | PInf \<Rightarrow> False
        | _ \<Rightarrow> True"
      by (simp only: p(2) k(3)) simp
    with ids_at_most_mono[OF a, of "B + 1"] have "ids_at_most (B + 1) (db @ [prod])"
      by (simp add: ids_at_most_def)
    with p(1) Post show ?thesis by simp
  qed
qed

lemma run_keeps_unique:
  "ids_at_most B db \<Longrightarrow> 0 \<le> B \<Longrightarrow> B + int (length rs) \<le> 2 ^ 53 \<Longrightarrow>
   (ids_unique db \<longrightarrow> ids_unique (run eng db rs))
   \<and> (distinct (map (\<lambda>p. field p ''id'') db)
        \<longrightarrow> distinct (map (\<lambda>p. field p ''id'') (run eng db rs)))"
proof (induction rs arbitrary: db B)
  case Nil
  then show ?case by (simp add: run_def)
next
  case (Cons r rs)
  from Cons.prems(3) have b: "B < 2 ^ 53" and l: "(B + 1) + int (length rs) \<le> 2 ^ 53" by simp_all
  from ids_at_most_safe[OF Cons.prems(1) b] have "safe_ids db" .
  then have c: "case r of Post now b \<Rightarrow> safe_ids db | _ \<Rightarrow> True" by (cases r) simp_all
  from handle_keeps_at_most[OF Cons.prems(1,2) b] have m: "ids_at_most (B + 1) (handle eng db r)" .
  from Cons.prems(2) have "0 \<le> B + 1" by simp
  from Cons.IH[OF m this l] handle_keeps_unique[OF c, of eng] show ?case
    by (simp add: run_def)
qed

text \<open>
  C7 as stated fails: a create can repeat an id. The collection whose only
  product has id \<open>2^53\<close> has unique ids; after a valid POST it holds two products
  with id \<open>2^53\<close>. From the single id \<open>2^53 - 1\<close>, two POSTs give the ids
  \<open>2^53 - 1\<close>, \<open>2^53\<close>, \<open>2^53\<close>.
\<close>

theorem ids_repeat_after_create:
  "ids_unique [[(''id'', JNum 9007199254740992)]]
   \<and> distinct (map (\<lambda>p. field p ''id'') [[(''id'', JNum 9007199254740992)]])
   \<and> (\<forall>eng. \<not> ids_unique (handle eng [[(''id'', JNum 9007199254740992)]]
                  (Post 77 (JObj [(''title'', JStr ''Foo''), (''category'', JStr ''Bar'')]))))
   \<and> (\<forall>eng. \<not> distinct (map (\<lambda>p. field p ''id'')
                  (handle eng [[(''id'', JNum 9007199254740992)]]
                     (Post 77 (JObj [(''title'', JStr ''Foo''), (''category'', JStr ''Bar'')])))))
   \<and> (\<forall>eng. map (\<lambda>p. field p ''id'')
               (run eng [[(''id'', JNum 9007199254740991)]]
                  [Post 77 (JObj [(''title'', JStr ''Foo''), (''category'', JStr ''Bar'')]),
                   Post 78 (JObj [(''title'', JStr ''Foo''), (''category'', JStr ''Bar'')])])
             = [Some (JNum 9007199254740991), Some (JNum 9007199254740992),
                Some (JNum 9007199254740992)])"
proof -
  let ?b = "JObj [(''title'', JStr ''Foo''), (''category'', JStr ''Bar'')]"
  let ?db = "[[(''id'', JNum 9007199254740992)]] :: product list"
  let ?db' = "[[(''id'', JNum 9007199254740991)]] :: product list"
  have 1: "ids_unique ?db" by simp
  have 2: "distinct (map (\<lambda>p. field p ''id'') ?db)" by simp
  have 3: "\<not> ids_unique (snd (post_products 77 ?db ?b))" by code_simp
  have 4: "\<not> distinct (map (\<lambda>p. field p ''id'') (snd (post_products 77 ?db ?b)))" by code_simp
  have 5: "map (\<lambda>p. field p ''id'') (snd (post_products 78 (snd (post_products 77 ?db' ?b)) ?b))
             = [Some (JNum 9007199254740991), Some (JNum 9007199254740992),
                Some (JNum 9007199254740992)]" by code_simp
  from 3 have a3: "\<forall>eng. \<not> ids_unique (handle eng ?db (Post 77 ?b))" by simp
  from 4 have a4: "\<forall>eng. \<not> distinct (map (\<lambda>p. field p ''id'') (handle eng ?db (Post 77 ?b)))"
    by simp
  from 5 have a5: "\<forall>eng. map (\<lambda>p. field p ''id'') (run eng ?db' [Post 77 ?b, Post 78 ?b])
             = [Some (JNum 9007199254740991), Some (JNum 9007199254740992),
                Some (JNum 9007199254740992)]"
    by (simp add: run_def)
  from 1 2 a3 a4 a5 show ?thesis by (intro conjI)
qed

text \<open>
  C7, amended. If the ids of the stored products are pairwise distinct before
  a request (as stored values, or as the numbers the handlers compare), they
  are after it: for a list, an update and a delete without condition, and for
  a create when every stored id that reads as a positive number is an integer
  below \<open>2^53\<close>. When those ids are at most \<open>B\<close>, the ids stay distinct through
  every sequence of requests no longer than \<open>2^53 - B\<close>. The reasons: the id a
  create assigns is then an integer from 1 to \<open>2^53\<close>, strictly greater than
  every stored id that reads as a number; an update leaves the list of ids as
  it was; a delete keeps a sublist of the collection; a list keeps the
  collection.
\<close>

theorem ids_remain_unique:
  "((case r of Post now b \<Rightarrow> safe_ids db | _ \<Rightarrow> True) \<longrightarrow>
      (ids_unique db \<longrightarrow> ids_unique (handle eng db r))
      \<and> (distinct (map (\<lambda>p. field p ''id'') db)
           \<longrightarrow> distinct (map (\<lambda>p. field p ''id'') (handle eng db r))))
   \<and> (\<forall>B rs. ids_at_most B db \<and> 0 \<le> B \<and> B + int (length rs) \<le> 2 ^ 53 \<longrightarrow>
        (ids_unique db \<longrightarrow> ids_unique (run eng db rs))
        \<and> (distinct (map (\<lambda>p. field p ''id'') db)
             \<longrightarrow> distinct (map (\<lambda>p. field p ''id'') (run eng db rs))))
   \<and> (safe_ids db \<longrightarrow>
        (\<exists>k::int. 1 \<le> k \<and> k \<le> 2 ^ 53 \<and> nextId db = Fin (of_int k)
           \<and> (\<forall>p \<in> set db. Number (field p ''id'') \<noteq> NaN
                 \<longrightarrow> num_lt (Number (field p ''id'')) (Fin (of_int k)))))
   \<and> (\<forall>pid b. map (\<lambda>p. field p ''id'') (handle eng db (Put pid b)) = map (\<lambda>p. field p ''id'') db)
   \<and> (\<forall>pid. handle eng db (Delete pid) = filter (\<lambda>p. \<not> id_matches pid p) db)
   \<and> (\<forall>qr. handle eng db (Get qr) = db)"
proof -
  have 1: "(ids_unique db \<longrightarrow> ids_unique (handle eng db r))
      \<and> (distinct (map (\<lambda>p. field p ''id'') db)
           \<longrightarrow> distinct (map (\<lambda>p. field p ''id'') (handle eng db r)))"
    if "case r of Post now b \<Rightarrow> safe_ids db | _ \<Rightarrow> True"
    using that by (rule handle_keeps_unique)
  have 2: "(ids_unique db \<longrightarrow> ids_unique (run eng db rs))
        \<and> (distinct (map (\<lambda>p. field p ''id'') db)
             \<longrightarrow> distinct (map (\<lambda>p. field p ''id'') (run eng db rs)))"
    if "ids_at_most B db \<and> 0 \<le> B \<and> B + int (length rs) \<le> 2 ^ 53" for B rs
    using that run_keeps_unique[of B db rs eng] by blast
  have 3: "\<exists>k::int. 1 \<le> k \<and> k \<le> 2 ^ 53 \<and> nextId db = Fin (of_int k)
           \<and> (\<forall>p \<in> set db. Number (field p ''id'') \<noteq> NaN
                 \<longrightarrow> num_lt (Number (field p ''id'')) (Fin (of_int k)))"
    if "safe_ids db"
    using nextId_fresh[OF that] by blast
  have 5: "\<forall>pid b. map (\<lambda>p. field p ''id'') (handle eng db (Put pid b)) = map (\<lambda>p. field p ''id'') db"
    using handle_put_ids by blast
  have 6: "\<forall>pid. handle eng db (Delete pid) = filter (\<lambda>p. \<not> id_matches pid p) db"
    using handle_delete_filter by blast
  have 7: "\<forall>qr. handle eng db (Get qr) = db"
    using handle_get by blast
  from 1 2 3 5 6 7 show ?thesis by blast
qed

lemma ids_at_most_seed: "ids_at_most 2 (seed 5 6)"
  unfolding ids_at_most_def by code_simp

theorem ids_remain_unique_witness:
  "ids_unique (handle example_engine (seed 5 6)
                 (Post 77 (JObj [(''title'', JStr ''Foo''), (''category'', JStr ''Bar'')])))
   \<and> distinct (map (\<lambda>p. field p ''id'')
        (handle example_engine (seed 5 6)
           (Post 77 (JObj [(''title'', JStr ''Foo''), (''category'', JStr ''Bar'')]))))
   \<and> ids_unique (handle example_engine (seed 5 6) (Put ''2'' (JObj [(''id'', JNum 1)])))
   \<and> ids_unique (run example_engine (seed 5 6)
        [Post 77 (JObj [(''title'', JStr ''Foo''), (''category'', JStr ''Bar'')]),
         Delete ''3'',
         Post 78 (JObj [(''title'', JStr ''Foo''), (''category'', JStr ''Bar'')]),
         Put ''3'' (JObj [(''id'', JNum 1)]),
         Get (Query None None None None)])
   \<and> nextId (seed 5 6) = Fin 3"
proof -
  let ?post = "Post 77 (JObj [(''title'', JStr ''Foo''), (''category'', JStr ''Bar'')])"
  let ?put = "Put ''2'' (JObj [(''id'', JNum 1)])"
  let ?rs = "[Post 77 (JObj [(''title'', JStr ''Foo''), (''category'', JStr ''Bar'')]),
         Delete ''3'',
         Post 78 (JObj [(''title'', JStr ''Foo''), (''category'', JStr ''Bar'')]),
         Put ''3'' (JObj [(''id'', JNum 1)]),
         Get (Query None None None None)]"
  have d: "distinct (map (\<lambda>p. field p ''id'') (seed 5 6))"
    by (simp add: seed_def field_def)
  from ids_remain_unique[where r = ?post and db = "seed 5 6" and eng = example_engine]
    safe_ids_seed ids_unique_seed d
  have 1: "ids_unique (handle example_engine (seed 5 6) ?post)"
    and 2: "distinct (map (\<lambda>p. field p ''id'') (handle example_engine (seed 5 6) ?post))"
    by simp_all
  from ids_remain_unique[where r = ?put and db = "seed 5 6" and eng = example_engine] ids_unique_seed
  have 3: "ids_unique (handle example_engine (seed 5 6) ?put)" by simp
  have l: "(2::int) + int (length ?rs) \<le> 2 ^ 53" by simp
  have seq: "\<forall>B rs. ids_at_most B (seed 5 6) \<and> 0 \<le> B \<and> B + int (length rs) \<le> 2 ^ 53 \<longrightarrow>
        (ids_unique (seed 5 6) \<longrightarrow> ids_unique (run example_engine (seed 5 6) rs))
        \<and> (distinct (map (\<lambda>p. field p ''id'') (seed 5 6))
             \<longrightarrow> distinct (map (\<lambda>p. field p ''id'') (run example_engine (seed 5 6) rs)))"
    by (rule conjunct1[OF conjunct2[OF
          ids_remain_unique[where r = ?post and db = "seed 5 6" and eng = example_engine]]])
  from seq[rule_format, of 2 ?rs] ids_at_most_seed ids_unique_seed l
  have 4: "ids_unique (run example_engine (seed 5 6) ?rs)" by simp
  from 1 2 3 4 nextId_seed show ?thesis by blast
qed

section \<open>Likes and dislikes\<close>











end
